theory Spec2Isabelle
  imports Complex_Main
begin

section \<open>JavaScript numbers in exact arithmetic\<close>

text \<open>
  The program computes with JavaScript numbers. A finite number is modelled as a real
  and every operation on finite numbers is exact: no rounding, no overflow, no underflow,
  and a single unsigned zero. The three non-finite values are kept, since the program
  reaches \<open>NaN\<close> from finite inputs (\<open>Math.sqrt\<close> of a negative number) and the
  comparisons, \<open>Math.max\<close> and \<open>||\<close> treat it specially.
\<close>

datatype number = NaN | NegInfinity | Num real | PosInfinity

fun signed_infinity :: "real \<Rightarrow> number" where
  "signed_infinity s = (if s = 0 then NaN else if 0 < s then PosInfinity else NegInfinity)"

fun num_sign :: "number \<Rightarrow> real" where
  "num_sign (Num x) = sgn x"
| "num_sign PosInfinity = 1"
| "num_sign NegInfinity = - 1"
| "num_sign NaN = 0"

instantiation number :: "{plus, minus, times, inverse, ord}"
begin

fun plus_number :: "number \<Rightarrow> number \<Rightarrow> number" where
  "plus_number (Num x) (Num y) = Num (x + y)"
| "plus_number NaN b = NaN"
| "plus_number a NaN = NaN"
| "plus_number PosInfinity NegInfinity = NaN"
| "plus_number NegInfinity PosInfinity = NaN"
| "plus_number PosInfinity b = PosInfinity"
| "plus_number a PosInfinity = PosInfinity"
| "plus_number NegInfinity b = NegInfinity"
| "plus_number a NegInfinity = NegInfinity"

fun minus_number :: "number \<Rightarrow> number \<Rightarrow> number" where
  "minus_number (Num x) (Num y) = Num (x - y)"
| "minus_number NaN b = NaN"
| "minus_number a NaN = NaN"
| "minus_number PosInfinity PosInfinity = NaN"
| "minus_number NegInfinity NegInfinity = NaN"
| "minus_number PosInfinity b = PosInfinity"
| "minus_number a NegInfinity = PosInfinity"
| "minus_number NegInfinity b = NegInfinity"
| "minus_number a PosInfinity = NegInfinity"

fun times_number :: "number \<Rightarrow> number \<Rightarrow> number" where
  "times_number (Num x) (Num y) = Num (x * y)"
| "times_number NaN b = NaN"
| "times_number a NaN = NaN"
| "times_number a b = signed_infinity (num_sign a * num_sign b)"

fun divide_number :: "number \<Rightarrow> number \<Rightarrow> number" where
  "divide_number (Num x) (Num y) = (if y = 0 then signed_infinity (sgn x) else Num (x / y))"
| "divide_number NaN b = NaN"
| "divide_number a NaN = NaN"
| "divide_number (Num x) b = Num 0"
| "divide_number a (Num y) = signed_infinity (num_sign a * (if y < 0 then - 1 else 1))"
| "divide_number a b = NaN"

text \<open>The program has no reciprocal of its own (it writes \<open>1 / v\<close>); this completes the class.\<close>

fun inverse_number :: "number \<Rightarrow> number" where
  "inverse_number (Num y) = (if y = 0 then PosInfinity else Num (1 / y))"
| "inverse_number NaN = NaN"
| "inverse_number a = Num 0"

fun less_number :: "number \<Rightarrow> number \<Rightarrow> bool" where
  "less_number (Num x) (Num y) = (x < y)"
| "less_number NaN b = False"
| "less_number a NaN = False"
| "less_number a NegInfinity = False"
| "less_number PosInfinity b = False"
| "less_number a b = True"

definition less_eq_number :: "number \<Rightarrow> number \<Rightarrow> bool" where
  "less_eq_number a b = (a < b \<or> (a = b \<and> a \<noteq> NaN))"

instance ..

end

fun Math_max :: "number \<Rightarrow> number \<Rightarrow> number" where
  "Math_max NaN b = NaN"
| "Math_max a NaN = NaN"
| "Math_max a b = (if a < b then b else a)"

fun Math_floor :: "number \<Rightarrow> number" where
  "Math_floor (Num x) = Num (of_int \<lfloor>x\<rfloor>)"
| "Math_floor a = a"

fun Math_sqrt :: "number \<Rightarrow> number" where
  "Math_sqrt (Num x) = (if x < 0 then NaN else Num (sqrt x))"
| "Math_sqrt PosInfinity = PosInfinity"
| "Math_sqrt a = NaN"

fun Math_log :: "real \<Rightarrow> number \<Rightarrow> number" where
  "Math_log b (Num x) = (if x < 0 then NaN else if x = 0 then NegInfinity else Num (log b x))"
| "Math_log b PosInfinity = PosInfinity"
| "Math_log b a = NaN"

definition Math_log2 :: "number \<Rightarrow> number" where
  "Math_log2 = Math_log 2"

definition Math_log10 :: "number \<Rightarrow> number" where
  "Math_log10 = Math_log 10"

text \<open>\<open>Math.pow(2, v)\<close>: the only base the program uses is 2.\<close>

fun Math_pow2 :: "number \<Rightarrow> number" where
  "Math_pow2 (Num v) = Num (2 powr v)"
| "Math_pow2 PosInfinity = PosInfinity"
| "Math_pow2 NegInfinity = Num 0"
| "Math_pow2 NaN = NaN"

text \<open>\<open>x ** 2\<close>.\<close>

fun square :: "number \<Rightarrow> number" where
  "square (Num x) = Num (x ^ 2)"
| "square NaN = NaN"
| "square a = PosInfinity"

text \<open>\<open>a || b\<close> on numbers: \<open>a\<close> unless it is falsy (zero or \<open>NaN\<close>).\<close>

definition or_else :: "number \<Rightarrow> number \<Rightarrow> number" where
  "or_else a b = (if a = Num 0 \<or> a = NaN then b else a)"

text \<open>\<open>Number.isFinite\<close>: used to state which inputs a property is about.\<close>

fun isFinite :: "number \<Rightarrow> bool" where
  "isFinite (Num x) = True"
| "isFinite a = False"

section \<open>Arrays and exceptions\<close>

text \<open>
  The only operations of the program that can raise are the two array constructions,
  which raise \<open>RangeError\<close> for a length that is not a valid array length (an integer
  from 0 to \<open>2^32 - 1\<close>), and the property read on \<open>data[data.length - 1]\<close>, which
  raises \<open>TypeError\<close> when \<open>data\<close> is empty. An array is a list; memory is unbounded.
\<close>

datatype error = RangeError | TypeError

text \<open>\<open>ToLength\<close> of the \<open>length\<close> property of an array-like object.\<close>

fun ToLength :: "number \<Rightarrow> nat" where
  "ToLength (Num x) = (if x \<le> 0 then 0 else min (nat \<lfloor>x\<rfloor>) (2 ^ 53 - 1))"
| "ToLength PosInfinity = 2 ^ 53 - 1"
| "ToLength a = 0"

text \<open>\<open>Array.from({ length: len }, (_, i) => f i)\<close>: the array is created by \<open>new Array(len)\<close>.\<close>

definition Array_from :: "number \<Rightarrow> (nat \<Rightarrow> 'a) \<Rightarrow> error + 'a list" where
  "Array_from len f =
     (if 2 ^ 32 - 1 < ToLength len then Inl RangeError
      else Inr (map f [0 ..< ToLength len]))"

text \<open>\<open>Array(n).fill(v)\<close>.\<close>

fun Array_fill :: "number \<Rightarrow> 'a \<Rightarrow> error + 'a list" where
  "Array_fill (Num x) v =
     (if 0 \<le> x \<and> x \<le> 2 ^ 32 - 1 \<and> x = of_int \<lfloor>x\<rfloor> then Inr (replicate (nat \<lfloor>x\<rfloor>) v)
      else Inl RangeError)"
| "Array_fill a v = Inl RangeError"

text \<open>\<open>.map(f)\<close> on the result of an expression that may have raised.\<close>

fun array_map :: "('a \<Rightarrow> 'b) \<Rightarrow> error + 'a list \<Rightarrow> error + 'b list" where
  "array_map f (Inl e) = Inl e"
| "array_map f (Inr xs) = Inr (map f xs)"

section \<open>The schedule generator\<close>

datatype ScheduleType = LINEAR | QUAD | SQRT | CONST' | RECIP | LOG | EXP

record DiffusionParams =
  betaStart :: number
  betaEnd :: number
  numTimesteps :: number
  schedule :: ScheduleType

record TimestepData =
  t :: nat
  beta :: number
  alpha :: number
  alphaBar :: number
  oneMinusAlphaBar :: number
  sqrtAlphaBar :: number
  sqrtOneMinusAlphaBar :: number
  snr :: number
  snrDb :: number

definition linspace :: "number \<Rightarrow> number \<Rightarrow> number \<Rightarrow> error + number list" where
  "linspace start endv n =
     (let count = Math_max (Num 1) (Math_floor n) in
      if count < Num 2 then Inr [start]
      else
        let step = (endv - start) / (count - Num 1) in
        Array_from count (\<lambda>i. start + step * Num (real i)))"

text \<open>
  The \<open>default\<close> branch of the \<open>switch\<close> (the LINEAR construction) has no case here:
  the enumeration is closed. The member \<open>CONST\<close> is written \<open>CONST'\<close>, since \<open>CONST\<close> is
  reserved in terms.
\<close>

definition getBetas :: "DiffusionParams \<Rightarrow> error + number list" where
  "getBetas params =
     (let n = Math_max (Num 1) (Math_floor (numTimesteps params)) in
      case schedule params of
        LINEAR \<Rightarrow> linspace (betaStart params) (betaEnd params) n
      | QUAD \<Rightarrow>
          array_map (\<lambda>v. v * v)
            (linspace (Math_sqrt (betaStart params)) (Math_sqrt (betaEnd params)) n)
      | SQRT \<Rightarrow>
          array_map (\<lambda>v. Math_sqrt v)
            (linspace (square (betaStart params)) (square (betaEnd params)) n)
      | CONST' \<Rightarrow> Array_fill n (betaEnd params)
      | RECIP \<Rightarrow> array_map (\<lambda>v. betaEnd params * (Num 1 / v)) (linspace n (Num 1) n)
      | LOG \<Rightarrow>
          (let logStart = Math_log2 (Math_max (Num (1 / 10 ^ 10)) (betaStart params));
               logEnd = Math_log2 (Math_max (Num (1 / 10 ^ 10)) (betaEnd params))
           in array_map (\<lambda>v. Math_pow2 v) (linspace logStart logEnd n))
      | EXP \<Rightarrow>
          (let expStart = Math_pow2 (betaStart params);
               expEnd = Math_pow2 (betaEnd params)
           in array_map (\<lambda>v. Math_log2 v) (linspace expStart expEnd n)))"

section \<open>The schedule evaluator\<close>

text \<open>
  The body of the \<open>for\<close> loop of \<open>calculateSchedule\<close>, from index \<open>i\<close> with the running
  product \<open>currentAlphaBar\<close>, over the betas that remain.
\<close>

fun scheduleLoop :: "nat \<Rightarrow> number \<Rightarrow> number list \<Rightarrow> TimestepData list" where
  "scheduleLoop i currentAlphaBar [] = []"
| "scheduleLoop i currentAlphaBar (b # betas) =
     (let alpha' = Num 1 - b;
          currentAlphaBar' = currentAlphaBar * alpha';
          oneMinusAlphaBar' = Num 1 - currentAlphaBar';
          snr' = currentAlphaBar' / (or_else oneMinusAlphaBar' (Num (1 / 10 ^ 12)));
          snrDb' = Num 10 * Math_log10 (Math_max (Num (1 / 10 ^ 20)) snr')
      in \<lparr> t = i + 1, beta = b, alpha = alpha', alphaBar = currentAlphaBar',
            oneMinusAlphaBar = oneMinusAlphaBar',
            sqrtAlphaBar = Math_sqrt currentAlphaBar',
            sqrtOneMinusAlphaBar = Math_sqrt oneMinusAlphaBar',
            snr = snr', snrDb = snrDb' \<rparr>
         # scheduleLoop (i + 1) currentAlphaBar' betas)"

definition calculateSchedule :: "DiffusionParams \<Rightarrow> error + TimestepData list" where
  "calculateSchedule params =
     (case getBetas params of
        Inl e \<Rightarrow> Inl e
      | Inr betas \<Rightarrow> Inr (scheduleLoop 0 (Num 1) betas))"

section \<open>The target-SNR solver\<close>

function solveLoop ::
  "number \<Rightarrow> number \<Rightarrow> number \<Rightarrow> ScheduleType \<Rightarrow> nat \<Rightarrow> number \<Rightarrow> number \<Rightarrow> error + number"
where
  "solveLoop targetSnrDb bStart nSteps sched i low high =
     (if i < 40 then
        let mid = (low + high) / Num 2 in
        case calculateSchedule
               \<lparr> betaStart = bStart, betaEnd = mid, numTimesteps = nSteps, schedule = sched \<rparr> of
          Inl e \<Rightarrow> Inl e
        | Inr data \<Rightarrow>
            if data = [] then Inl TypeError
            else
              let finalSnrDb = snrDb (data ! (length data - 1)) in
              if targetSnrDb < finalSnrDb
              then solveLoop targetSnrDb bStart nSteps sched (i + 1) mid high
              else solveLoop targetSnrDb bStart nSteps sched (i + 1) low mid
      else Inr high)"
  by pat_completeness auto
termination
  by (relation "measure (\<lambda>(targetSnrDb, bStart, nSteps, sched, i, low, high). 40 - i)") auto

declare solveLoop.simps [simp del]

definition solveBetaEndForSNR ::
  "number \<Rightarrow> number \<Rightarrow> number \<Rightarrow> ScheduleType \<Rightarrow> error + number" where
  "solveBetaEndForSNR targetSnrDb bStart nSteps sched =
     solveLoop targetSnrDb bStart nSteps sched 0 (Num (1 / 10 ^ 7)) (Num 0.999)"

section \<open>The bisection, as the specification describes it\<close>

text \<open>
  These two definitions follow the specification's words, not the code; the solver is
  compared with them. \<open>terminalSnrDb\<close> is the \<open>snrDb\<close> of the last record of the schedule
  evaluated with \<open>betaEnd = mid\<close>. \<open>bisectionStep\<close> is one iteration on the bracket
  \<open>(low, high)\<close>: \<open>mid = (low + high) / 2\<close>, then \<open>low = mid\<close> when the terminal \<open>snrDb\<close>
  exceeds the target and \<open>high = mid\<close> otherwise.
\<close>

definition terminalSnrDb :: "number \<Rightarrow> number \<Rightarrow> ScheduleType \<Rightarrow> real \<Rightarrow> number" where
  "terminalSnrDb bStart nSteps sched mid =
     (case calculateSchedule
             \<lparr> betaStart = bStart, betaEnd = Num mid, numTimesteps = nSteps, schedule = sched \<rparr> of
        Inl e \<Rightarrow> NaN
      | Inr data \<Rightarrow> snrDb (last data))"

definition bisectionStep :: "(real \<Rightarrow> number) \<Rightarrow> number \<Rightarrow> real \<times> real \<Rightarrow> real \<times> real" where
  "bisectionStep f target =
     (\<lambda>(low, high). let mid = (low + high) / 2 in
        if target < f mid then (mid, high) else (low, mid))"

section \<open>The interpolation primitive\<close>

lemma Math_max_Num: "Math_max (Num x) (Num y) = Num (max x y)"
  by (simp add: max_def)

lemma count_Num: "Math_max (Num 1) (Math_floor (Num n)) = Num (of_int (max 1 \<lfloor>n\<rfloor>))"
  by (simp only: Math_floor.simps Math_max_Num of_int_max of_int_1)

lemma ToLength_count:
  "1 \<le> c \<Longrightarrow> ToLength (Num (of_int c)) = min (nat c) (2 ^ 53 - 1)"
  by simp

lemma linspace_Num:
  assumes c: "c = max 1 \<lfloor>n\<rfloor>"
  shows "linspace a b (Num n) =
     (if c < 2 then Inr [a]
      else if 2 ^ 32 \<le> c then Inl RangeError
      else Inr (map (\<lambda>i. a + (b - a) / Num (of_int c - 1) * Num (real i)) [0 ..< nat c]))"
proof -
  have c1: "1 \<le> c" by (simp add: c)
  have cnt: "Math_max (Num 1) (Math_floor (Num n)) = Num (of_int c)"
    by (simp only: c count_Num)
  have len: "ToLength (Num (of_int c)) = min (nat c) (2 ^ 53 - 1)"
    using c1 by simp
  show ?thesis
  proof (cases "c < 2")
    case True
    then show ?thesis
      unfolding linspace_def cnt Let_def by simp
  next
    case False
    then show ?thesis
      unfolding linspace_def cnt Let_def Array_from_def len
      by (auto simp: min_def)
  qed
qed

lemma linspace_one:
  assumes "c = max 1 \<lfloor>n\<rfloor>" and "c < 2"
  shows "linspace a b (Num n) = Inr [a]"
  using assms(2) by (simp only: linspace_Num [OF assms(1)] if_True)

lemma linspace_many:
  assumes "c = max 1 \<lfloor>n\<rfloor>" and "2 \<le> c" and "c < 2 ^ 32"
  shows "linspace (Num x) (Num y) (Num n) =
     Inr (map (\<lambda>i. Num (x + (y - x) / (of_int c - 1) * real i)) [0 ..< nat c])"
  using assms(2,3) by (simp add: linspace_Num [OF assms(1)])

text \<open>
  Claim C5, as stated, fails: a count of \<open>2^32\<close> is finite and \<open>linspace\<close> raises
  \<open>RangeError\<close> for it.
\<close>

theorem linspace_counterexample:
  "linspace (Num 0) (Num 1) (Num 4294967296) = Inl RangeError"
  by (simp add: linspace_def Array_from_def)

text \<open>
  Claim C5 (amended): for finite \<open>start\<close>, \<open>end\<close> and \<open>n\<close> with \<open>floor n < 2^32\<close>,
  \<open>linspace\<close> returns exactly \<open>max 1 (floor n)\<close> values; when that count is 1 the result is
  \<open>[start]\<close>; otherwise the value at index \<open>i\<close> is \<open>start + step * i\<close> with
  \<open>step = (end - start) / (count - 1)\<close>, index 0 holds \<open>start\<close> and the last index holds
  \<open>end\<close>.
\<close>

theorem linspace_values:
  assumes "\<lfloor>n\<rfloor> < 2 ^ 32"
  shows "\<exists>xs. linspace (Num start) (Num endv) (Num n) = Inr xs
    \<and> length xs = nat (max 1 \<lfloor>n\<rfloor>)
    \<and> (max 1 \<lfloor>n\<rfloor> = 1 \<longrightarrow> xs = [Num start])
    \<and> (1 < max 1 \<lfloor>n\<rfloor> \<longrightarrow>
         (\<forall>i<length xs.
            xs ! i = Num (start + (endv - start) / (of_int (max 1 \<lfloor>n\<rfloor>) - 1) * real i))
         \<and> xs ! 0 = Num start
         \<and> xs ! (length xs - 1) = Num endv)"
proof -
  define c where "c = max 1 \<lfloor>n\<rfloor>"
  have c1: "1 \<le> c" by (simp add: c_def)
  have cb: "c < 2 ^ 32" using assms unfolding c_def by (simp only: max_less_iff_conj) simp
  show ?thesis
    unfolding c_def [symmetric]
  proof (cases "c < 2")
    case True
    then have "c = 1" using c1 by simp
    with linspace_one [OF c_def True, of "Num start" "Num endv"]
    show "\<exists>xs. linspace (Num start) (Num endv) (Num n) = Inr xs
      \<and> length xs = nat c \<and> (c = 1 \<longrightarrow> xs = [Num start])
      \<and> (1 < c \<longrightarrow>
         (\<forall>i<length xs. xs ! i = Num (start + (endv - start) / (of_int c - 1) * real i))
         \<and> xs ! 0 = Num start \<and> xs ! (length xs - 1) = Num endv)"
      by simp
  next
    case False
    then have c2: "2 \<le> c" by simp
    define xs where
      "xs = map (\<lambda>i. Num (start + (endv - start) / (of_int c - 1) * real i)) [0 ..< nat c]"
    have eq: "linspace (Num start) (Num endv) (Num n) = Inr xs"
      unfolding xs_def by (rule linspace_many [OF c_def c2 cb])
    have len: "length xs = nat c" by (simp add: xs_def)
    have nth: "xs ! i = Num (start + (endv - start) / (of_int c - 1) * real i)"
      if "i < nat c" for i
      using that by (simp add: xs_def)
    have first: "xs ! 0 = Num start" using c2 nth [of 0] by simp
    have "real (nat c - 1) = of_int c - 1" using c2 by (simp add: of_nat_diff)
    then have lst: "xs ! (nat c - 1) = Num endv"
      using c2 nth [of "nat c - 1"] by simp
    show "\<exists>xs. linspace (Num start) (Num endv) (Num n) = Inr xs
      \<and> length xs = nat c \<and> (c = 1 \<longrightarrow> xs = [Num start])
      \<and> (1 < c \<longrightarrow>
         (\<forall>i<length xs. xs ! i = Num (start + (endv - start) / (of_int c - 1) * real i))
         \<and> xs ! 0 = Num start \<and> xs ! (length xs - 1) = Num endv)"
      using eq len nth first lst c2 by auto
  qed
qed

theorem linspace_values_witness:
  "\<lfloor>2 :: real\<rfloor> < 2 ^ 32 \<and>
   (\<exists>xs. linspace (Num 0.1) (Num 0.3) (Num 2) = Inr xs \<and> length xs = 2
     \<and> xs ! 0 = Num 0.1 \<and> xs ! (length xs - 1) = Num 0.3)"
  using linspace_values [of 2 "0.1" "0.3"] by auto

section \<open>The evaluator loop\<close>

lemma scheduleLoop_length: "length (scheduleLoop i c bs) = length bs"
  by (induction bs arbitrary: i c) (simp_all add: Let_def)

lemma scheduleLoop_t: "map t (scheduleLoop i c bs) = [Suc i ..< Suc i + length bs]"
proof (induction bs arbitrary: i c)
  case Nil
  then show ?case by simp
next
  case (Cons b bs)
  have "[Suc i ..< Suc i + length (b # bs)] = Suc i # [Suc (Suc i) ..< Suc (Suc i) + length bs]"
    by (simp add: upt_rec)
  then show ?case using Cons.IH [of "Suc i"] by (simp add: Let_def)
qed

lemma scheduleLoop_nth:
  "k < length bs \<Longrightarrow>
   scheduleLoop i c bs ! k =
     (let ab = foldl (*) c (map (\<lambda>b. Num 1 - b) (take (Suc k) bs));
          om = Num 1 - ab;
          s = ab / or_else om (Num (1 / 10 ^ 12))
      in \<lparr> t = i + k + 1, beta = bs ! k, alpha = Num 1 - bs ! k, alphaBar = ab,
            oneMinusAlphaBar = om, sqrtAlphaBar = Math_sqrt ab,
            sqrtOneMinusAlphaBar = Math_sqrt om, snr = s,
            snrDb = Num 10 * Math_log10 (Math_max (Num (1 / 10 ^ 20)) s) \<rparr>)"
proof (induction bs arbitrary: i c k)
  case Nil
  then show ?case by simp
next
  case (Cons b bs)
  show ?case
  proof (cases k)
    case 0
    then show ?thesis by (simp add: Let_def)
  next
    case (Suc j)
    with Cons.prems have "j < length bs" by simp
    from Cons.IH [OF this, of "Suc i" "c * (Num 1 - b)"] Suc
    show ?thesis by (simp add: Let_def)
  qed
qed


text \<open>
  Claim C1: the evaluator produces one record per beta, in order; at step \<open>i\<close> (0-based
  here, \<open>t = i + 1\<close>) \<open>alpha\<close> is \<open>1 - beta\<close>, \<open>alphaBar\<close> is the left-to-right product of
  the alphas up to that step seeded at 1, \<open>oneMinusAlphaBar\<close> is \<open>1 - alphaBar\<close>, and the two
  square-root fields are \<open>Math.sqrt\<close> of \<open>alphaBar\<close> and of \<open>oneMinusAlphaBar\<close>.
\<close>

theorem calculateSchedule_records:
  assumes "getBetas params = Inr betas"
  shows "\<exists>data. calculateSchedule params = Inr data \<and> length data = length betas \<and>
    (\<forall>i<length betas.
       t (data ! i) = i + 1 \<and>
       beta (data ! i) = betas ! i \<and>
       alpha (data ! i) = Num 1 - betas ! i \<and>
       alphaBar (data ! i) = foldl (*) (Num 1) (map (\<lambda>b. Num 1 - b) (take (Suc i) betas)) \<and>
       oneMinusAlphaBar (data ! i) = Num 1 - alphaBar (data ! i) \<and>
       sqrtAlphaBar (data ! i) = Math_sqrt (alphaBar (data ! i)) \<and>
       sqrtOneMinusAlphaBar (data ! i) = Math_sqrt (oneMinusAlphaBar (data ! i)))"
proof -
  have "calculateSchedule params = Inr (scheduleLoop 0 (Num 1) betas)"
    using assms by (simp add: calculateSchedule_def)
  then show ?thesis
    by (simp add: scheduleLoop_length scheduleLoop_nth Let_def)
qed

lemma getBetas_linear_two:
  "getBetas \<lparr> betaStart = Num 0.1, betaEnd = Num 0.3, numTimesteps = Num 2, schedule = LINEAR \<rparr>
     = Inr [Num 0.1, Num 0.3]"
  by (simp add: getBetas_def linspace_def Array_from_def upt_rec)

theorem calculateSchedule_records_witness:
  "getBetas \<lparr> betaStart = Num 0.1, betaEnd = Num 0.3, numTimesteps = Num 2, schedule = LINEAR \<rparr>
     = Inr [Num 0.1, Num 0.3] \<and>
   (\<exists>data. calculateSchedule
       \<lparr> betaStart = Num 0.1, betaEnd = Num 0.3, numTimesteps = Num 2, schedule = LINEAR \<rparr>
       = Inr data \<and> length data = 2 \<and> t (data ! 1) = 2 \<and> alpha (data ! 1) = Num 0.7 \<and>
       alphaBar (data ! 1) = Num 0.63)"
  using calculateSchedule_records [OF getBetas_linear_two] getBetas_linear_two
  by (auto simp: numeral_2_eq_2)

lemma or_else_denominator:
  "ab / or_else (Num 1 - ab) d = ab / (if Num 1 - ab = Num 0 then d else Num 1 - ab)"
  by (cases ab) (simp_all add: or_else_def)

text \<open>
  Claim C4: the evaluator returns whenever the generator does (the loop adds no exception
  of its own), with one record per beta, and at every step \<open>snr\<close> is
  \<open>alphaBar / oneMinusAlphaBar\<close> with the denominator \<open>1e-12\<close> substituted exactly when
  \<open>oneMinusAlphaBar\<close> is zero, and \<open>snrDb\<close> is \<open>10 * log10 (max 1e-20 snr)\<close>. (\<open>||\<close> also
  replaces a \<open>NaN\<close> denominator, but then \<open>alphaBar\<close> is \<open>NaN\<close> and so is the quotient,
  whatever the denominator.)
\<close>

theorem calculateSchedule_snr:
  assumes "getBetas params = Inr betas"
  shows "\<exists>data. calculateSchedule params = Inr data \<and> length data = length betas \<and>
    (\<forall>i<length betas.
       beta (data ! i) = betas ! i \<and>
       alphaBar (data ! i) = foldl (*) (Num 1) (map (\<lambda>b. Num 1 - b) (take (Suc i) betas)) \<and>
       oneMinusAlphaBar (data ! i) = Num 1 - alphaBar (data ! i) \<and>
       snr (data ! i) = alphaBar (data ! i) /
         (if oneMinusAlphaBar (data ! i) = Num 0 then Num (1 / 10 ^ 12)
          else oneMinusAlphaBar (data ! i)) \<and>
       snrDb (data ! i) = Num 10 * Math_log10 (Math_max (Num (1 / 10 ^ 20)) (snr (data ! i))))"
proof -
  let ?data = "scheduleLoop 0 (Num 1) betas"
  have eq: "calculateSchedule params = Inr ?data"
    using assms by (simp add: calculateSchedule_def)
  have len: "length ?data = length betas" by (rule scheduleLoop_length)
  have row: "beta (?data ! i) = betas ! i \<and>
       alphaBar (?data ! i) = foldl (*) (Num 1) (map (\<lambda>b. Num 1 - b) (take (Suc i) betas)) \<and>
       oneMinusAlphaBar (?data ! i) = Num 1 - alphaBar (?data ! i) \<and>
       snr (?data ! i) = alphaBar (?data ! i) /
         (if oneMinusAlphaBar (?data ! i) = Num 0 then Num (1 / 10 ^ 12)
          else oneMinusAlphaBar (?data ! i)) \<and>
       snrDb (?data ! i) = Num 10 * Math_log10 (Math_max (Num (1 / 10 ^ 20)) (snr (?data ! i)))"
    if "i < length betas" for i
    unfolding scheduleLoop_nth [OF that] Let_def
    by (simp only: TimestepData.simps or_else_denominator simp_thms)
  from eq len row show ?thesis by blast
qed

lemma getBetas_zero:
  "getBetas \<lparr> betaStart = Num 0, betaEnd = Num 0.02, numTimesteps = Num 1, schedule = LINEAR \<rparr>
     = Inr [Num 0]"
  by (simp add: getBetas_def linspace_def)

theorem calculateSchedule_snr_witness:
  "getBetas \<lparr> betaStart = Num 0, betaEnd = Num 0.02, numTimesteps = Num 1, schedule = LINEAR \<rparr>
     = Inr [Num 0] \<and>
   (\<exists>data. calculateSchedule
       \<lparr> betaStart = Num 0, betaEnd = Num 0.02, numTimesteps = Num 1, schedule = LINEAR \<rparr>
       = Inr data \<and> length data = 1 \<and>
      alphaBar (data ! 0) = Num 1 \<and> oneMinusAlphaBar (data ! 0) = Num 0 \<and>
      snr (data ! 0) = Num (10 ^ 12) \<and> snrDb (data ! 0) = Num 120)"
proof -
  let ?P = "\<lparr> betaStart = Num 0, betaEnd = Num 0.02, numTimesteps = Num 1, schedule = LINEAR \<rparr>"
  from calculateSchedule_snr [OF getBetas_zero]
  obtain data where d: "calculateSchedule ?P = Inr data"
    and len: "length data = length [Num 0]"
    and row: "\<forall>i<length [Num 0].
       beta (data ! i) = [Num 0] ! i \<and>
       alphaBar (data ! i) = foldl (*) (Num 1) (map (\<lambda>b. Num 1 - b) (take (Suc i) [Num 0])) \<and>
       oneMinusAlphaBar (data ! i) = Num 1 - alphaBar (data ! i) \<and>
       snr (data ! i) = alphaBar (data ! i) /
         (if oneMinusAlphaBar (data ! i) = Num 0 then Num (1 / 10 ^ 12)
          else oneMinusAlphaBar (data ! i)) \<and>
       snrDb (data ! i) = Num 10 * Math_log10 (Math_max (Num (1 / 10 ^ 20)) (snr (data ! i)))"
    by blast
  have "(0 :: nat) < length [Num 0]" by simp
  from row [THEN spec, THEN mp, OF this]
  have ab: "alphaBar (data ! 0) = Num 1"
    and om: "oneMinusAlphaBar (data ! 0) = Num 1 - alphaBar (data ! 0)"
    and sn: "snr (data ! 0) = alphaBar (data ! 0) /
         (if oneMinusAlphaBar (data ! 0) = Num 0 then Num (1 / 10 ^ 12)
          else oneMinusAlphaBar (data ! 0))"
    and db: "snrDb (data ! 0) = Num 10 * Math_log10 (Math_max (Num (1 / 10 ^ 20)) (snr (data ! 0)))"
    by simp_all
  have om0: "oneMinusAlphaBar (data ! 0) = Num 0" unfolding om ab by simp
  have sn0: "snr (data ! 0) = Num (10 ^ 12)" unfolding sn om0 ab by simp
  have "log 10 (10 ^ 12) = (12 :: real)" using log_pow_cancel [of 10 12] by simp
  then have l: "log 10 1000000000000 = (12 :: real)" by simp
  have db0: "snrDb (data ! 0) = Num 120" unfolding db sn0 by (simp add: Math_log10_def l)
  from d len ab om0 sn0 db0 getBetas_zero show ?thesis by simp
qed

lemma isFinite_iff: "isFinite a \<longleftrightarrow> (\<exists>x. a = Num x)"
  by (cases a) simp_all

lemma alphaBar_Num:
  "foldl (*) (Num c) (map (\<lambda>b. Num 1 - b) (map Num xs)) = Num (c * prod_list (map (\<lambda>x. 1 - x) xs))"
  by (induction xs arbitrary: c) (simp_all add: mult.assoc)

lemma Num_le_Num: "Num x \<le> Num y \<longleftrightarrow> x \<le> y"
  by (auto simp: less_eq_number_def)

lemma snrDb_lower:
  "\<exists>y. Num 10 * Math_log10 (Math_max (Num (1 / 10 ^ 20)) (Num a / or_else (Num 1 - Num a) (Num (1 / 10 ^ 12))))
       = Num y \<and> - 200 \<le> y"
proof -
  have "\<exists>d. or_else (Num 1 - Num a) (Num (1 / 10 ^ 12)) = Num d \<and> d \<noteq> 0"
  proof (cases "a = 1")
    case True
    then have "or_else (Num 1 - Num a) (Num (1 / 10 ^ 12)) = Num (1 / 10 ^ 12)"
      by (simp add: or_else_def)
    then show ?thesis by (intro exI [of _ "1 / 10 ^ 12"] conjI) simp_all
  next
    case False
    then have "or_else (Num 1 - Num a) (Num (1 / 10 ^ 12)) = Num (1 - a)"
      by (simp add: or_else_def)
    with False show ?thesis by simp
  qed
  then obtain d where d: "or_else (Num 1 - Num a) (Num (1 / 10 ^ 12)) = Num d" and d0: "d \<noteq> 0"
    by blast
  define m where "m = max (1 / 10 ^ 20) (a / d)"
  have m: "1 / 10 ^ 20 \<le> m" by (simp add: m_def)
  then have mpos: "0 < m" by (rule less_le_trans [rotated]) simp
  have "log 10 (1 / 10 ^ 20) \<le> log 10 m"
    using m mpos by (subst log_le_cancel_iff) simp_all
  moreover have "log 10 (1 / 10 ^ 20) = - 20"
    using log_divide [of 10 1 "10 ^ 20"] log_pow_cancel [of 10 20] by simp
  ultimately have "- 20 \<le> log 10 m" by simp
  moreover have "Math_max (Num (1 / 10 ^ 20)) (Num a / Num d) = Num m"
    using d0 by (simp add: m_def max_def)
  ultimately show ?thesis
    using mpos d by (simp add: Math_log10_def)
qed

lemma snr_nonfinite:
  assumes "\<not> isFinite ab"
  shows "ab / or_else (Num 1 - ab) (Num (1 / 10 ^ 12)) = NaN"
    and "Num 10 * Math_log10 (Math_max (Num (1 / 10 ^ 20))
           (ab / or_else (Num 1 - ab) (Num (1 / 10 ^ 12)))) = NaN"
  using assms by (cases ab; simp add: or_else_def Math_log10_def)+

text \<open>
  Claim C10, as stated, fails: QUAD with a negative \<open>betaStart\<close> takes \<open>Math.sqrt\<close> of a
  negative number, the beta is \<open>NaN\<close>, and so is \<open>snrDb\<close>: the comparison with \<open>-200\<close> is
  false. \<open>Math.max (1e-20, NaN)\<close> is \<open>NaN\<close>.
\<close>

theorem snrDb_counterexample:
  "map_sum id (map (\<lambda>r. Num (- 200) \<le> snrDb r))
     (calculateSchedule
        \<lparr> betaStart = Num (- 1), betaEnd = Num 0.02, numTimesteps = Num 1, schedule = QUAD \<rparr>)
   = Inr [False]"
  by (simp add: calculateSchedule_def getBetas_def linspace_def Let_def or_else_def
      Math_log10_def less_eq_number_def)

text \<open>
  Claim C10 (amended): every record whose \<open>alphaBar\<close> is a finite number has
  \<open>snrDb \<ge> -200\<close>, also when \<open>snr\<close> is zero or negative; a record whose \<open>alphaBar\<close> is
  \<open>NaN\<close> or infinite has \<open>snr = NaN\<close> and \<open>snrDb = NaN\<close>, which the clamp does not bound.
\<close>

theorem snrDb_lower_bound:
  assumes "getBetas params = Inr betas"
  shows "\<exists>data. calculateSchedule params = Inr data \<and> length data = length betas \<and>
    (\<forall>i<length betas.
       (isFinite (alphaBar (data ! i)) \<longrightarrow> Num (- 200) \<le> snrDb (data ! i)) \<and>
       (\<not> isFinite (alphaBar (data ! i)) \<longrightarrow>
          snr (data ! i) = NaN \<and> snrDb (data ! i) = NaN))"
proof -
  let ?data = "scheduleLoop 0 (Num 1) betas"
  have eq: "calculateSchedule params = Inr ?data"
    using assms(1) by (simp add: calculateSchedule_def)
  have len: "length ?data = length betas" by (rule scheduleLoop_length)
  have row: "(isFinite (alphaBar (?data ! i)) \<longrightarrow> Num (- 200) \<le> snrDb (?data ! i)) \<and>
       (\<not> isFinite (alphaBar (?data ! i)) \<longrightarrow>
          snr (?data ! i) = NaN \<and> snrDb (?data ! i) = NaN)"
    if i: "i < length betas" for i
  proof (cases "isFinite (foldl (*) (Num 1) (map (\<lambda>b. Num 1 - b) (take (Suc i) betas)))")
    case True
    then obtain a where a: "foldl (*) (Num 1) (map (\<lambda>b. Num 1 - b) (take (Suc i) betas)) = Num a"
      by (auto simp: isFinite_iff)
    from snrDb_lower [of a] obtain y where
      "Num 10 * Math_log10 (Math_max (Num (1 / 10 ^ 20))
         (Num a / or_else (Num 1 - Num a) (Num (1 / 10 ^ 12)))) = Num y" and "- 200 \<le> y"
      by blast
    then show ?thesis
      unfolding scheduleLoop_nth [OF i] Let_def a
      by (simp add: Num_le_Num)
  next
    case False
    from snr_nonfinite [OF this] False show ?thesis
      unfolding scheduleLoop_nth [OF i] Let_def
      by simp
  qed
  from eq len row show ?thesis by blast
qed

lemma getBetas_negative:
  "getBetas \<lparr> betaStart = Num (- 1), betaEnd = Num 0.02, numTimesteps = Num 1, schedule = LINEAR \<rparr>
     = Inr [Num (- 1)]"
  by (simp add: getBetas_def linspace_def)

theorem snrDb_lower_bound_witness:
  "getBetas \<lparr> betaStart = Num (- 1), betaEnd = Num 0.02, numTimesteps = Num 1, schedule = LINEAR \<rparr>
     = Inr [Num (- 1)] \<and>
   (\<exists>data. calculateSchedule
       \<lparr> betaStart = Num (- 1), betaEnd = Num 0.02, numTimesteps = Num 1, schedule = LINEAR \<rparr>
       = Inr data \<and> length data = 1 \<and>
      alphaBar (data ! 0) = Num 2 \<and> snr (data ! 0) = Num (- 2) \<and>
      Num (- 200) \<le> snrDb (data ! 0))"
proof -
  let ?P = "\<lparr> betaStart = Num (- 1), betaEnd = Num 0.02, numTimesteps = Num 1, schedule = LINEAR \<rparr>"
  let ?data = "scheduleLoop 0 (Num 1) [Num (- 1)]"
  from snrDb_lower_bound [OF getBetas_negative]
  obtain data where d: "calculateSchedule ?P = Inr data"
    and len: "length data = length [Num (- 1)]"
    and row: "\<forall>i<length [Num (- 1)].
       (isFinite (alphaBar (data ! i)) \<longrightarrow> Num (- 200) \<le> snrDb (data ! i)) \<and>
       (\<not> isFinite (alphaBar (data ! i)) \<longrightarrow>
          snr (data ! i) = NaN \<and> snrDb (data ! i) = NaN)"
    by blast
  have e: "calculateSchedule ?P = Inr ?data"
    unfolding calculateSchedule_def getBetas_negative by (simp only: sum.case)
  have "Inr data = (Inr ?data :: error + TimestepData list)"
    unfolding d [symmetric] by (rule e)
  then have dd: "data = ?data" by (simp only: sum.inject)
  have ab: "alphaBar (data ! 0) = Num 2" unfolding dd by (simp add: Let_def)
  have sn: "snr (data ! 0) = Num (- 2)" unfolding dd by (simp add: Let_def or_else_def)
  have "(0 :: nat) < length [Num (- 1)]" by simp
  from row [THEN spec, THEN mp, OF this] ab
  have lb: "Num (- 200) \<le> snrDb (data ! 0)" by simp
  from d len ab sn lb getBetas_negative show ?thesis by simp
qed

lemma linspace_length:
  assumes "c = max 1 \<lfloor>n\<rfloor>" and "c < 2 ^ 32"
  shows "\<exists>xs. linspace a b (Num n) = Inr xs \<and> length xs = nat c"
proof (cases "c < 2")
  case True
  moreover have "1 \<le> c" by (simp add: assms(1))
  ultimately have "nat c = 1" by simp
  with linspace_one [OF assms(1) True, of a b] show ?thesis by simp
next
  case False
  with assms(2) show ?thesis by (simp add: linspace_Num [OF assms(1)])
qed

lemma array_map_length:
  "\<exists>xs. r = Inr xs \<and> length xs = k \<Longrightarrow> \<exists>ys. array_map f r = Inr ys \<and> length ys = k"
  by auto

lemma Array_fill_count:
  assumes "1 \<le> c" and "c < 2 ^ 32"
  shows "Array_fill (Num (of_int c)) v = Inr (replicate (nat c) v)"
proof -
  have "real_of_int c \<le> 2 ^ 32 - 1"
  proof -
    have "c \<le> 2 ^ 32 - 1" using assms(2) by simp
    then have "real_of_int c \<le> real_of_int (2 ^ 32 - 1)" by (simp only: of_int_le_iff)
    then show ?thesis by simp
  qed
  moreover have "0 \<le> real_of_int c" using assms(1) by simp
  ultimately show ?thesis by simp
qed

lemma getBetas_length:
  assumes "numTimesteps params = Num n" and "\<lfloor>n\<rfloor> < 2 ^ 32"
  shows "\<exists>betas. getBetas params = Inr betas \<and> length betas = nat (max 1 \<lfloor>n\<rfloor>)"
proof -
  define c where "c = max 1 \<lfloor>n\<rfloor>"
  have c1: "1 \<le> c" by (simp add: c_def)
  have cb: "c < 2 ^ 32" using assms(2) unfolding c_def by (simp only: max_less_iff_conj) simp
  have cnt: "Math_max (Num 1) (Math_floor (numTimesteps params)) = Num (of_int c)"
    by (simp only: assms(1) c_def count_Num)
  have cc: "c = max 1 \<lfloor>real_of_int c\<rfloor>" using c1 by simp
  note lin = linspace_length [OF cc cb]
  show ?thesis
    unfolding c_def [symmetric]
  proof (cases "schedule params")
    case LINEAR
    then show "\<exists>betas. getBetas params = Inr betas \<and> length betas = nat c"
      using lin by (simp add: getBetas_def cnt)
  next
    case QUAD
    then show "\<exists>betas. getBetas params = Inr betas \<and> length betas = nat c"
      using array_map_length [OF lin] by (simp add: getBetas_def cnt)
  next
    case SQRT
    then show "\<exists>betas. getBetas params = Inr betas \<and> length betas = nat c"
      using array_map_length [OF lin] by (simp add: getBetas_def cnt)
  next
    case CONST'
    then show "\<exists>betas. getBetas params = Inr betas \<and> length betas = nat c"
      by (simp add: getBetas_def cnt Array_fill_count [OF c1 cb] del: Array_fill.simps)
  next
    case RECIP
    then show "\<exists>betas. getBetas params = Inr betas \<and> length betas = nat c"
      using array_map_length [OF lin] by (simp add: getBetas_def cnt Let_def)
  next
    case LOG
    then show "\<exists>betas. getBetas params = Inr betas \<and> length betas = nat c"
      using array_map_length [OF lin] by (simp add: getBetas_def cnt Let_def)
  next
    case EXP
    then show "\<exists>betas. getBetas params = Inr betas \<and> length betas = nat c"
      using array_map_length [OF lin] by (simp add: getBetas_def cnt Let_def)
  qed
qed

text \<open>
  Claim C2, as stated, fails: for \<open>numTimesteps = 2^32\<close> the generator raises
  \<open>RangeError\<close>, and so does \<open>calculateSchedule\<close>.
\<close>

theorem calculateSchedule_counterexample:
  "calculateSchedule
     \<lparr> betaStart = Num 0.0001, betaEnd = Num 0.02, numTimesteps = Num 4294967296,
       schedule = LINEAR \<rparr> = Inl RangeError"
  by (simp add: calculateSchedule_def getBetas_def linspace_def Array_from_def)

text \<open>
  Claim C2 (amended), where the specification's \<open>generateSchedule\<close> is \<open>calculateSchedule\<close>
  (\<open>getBetas\<close> followed by the evaluator loop): for every family, every \<open>betaStart\<close> and \<open>betaEnd\<close> and every finite
  \<open>numTimesteps\<close> with \<open>floor numTimesteps < 2^32\<close>, \<open>calculateSchedule\<close> returns exactly
  \<open>max 1 (floor numTimesteps)\<close> records, whose \<open>t\<close> fields are \<open>1, ..., N\<close> in order, and
  raises nothing.
\<close>

theorem calculateSchedule_length:
  assumes "numTimesteps params = Num n" and "\<lfloor>n\<rfloor> < 2 ^ 32"
  shows "\<exists>data. calculateSchedule params = Inr data \<and>
    length data = nat (max 1 \<lfloor>n\<rfloor>) \<and>
    map t data = [1 ..< Suc (nat (max 1 \<lfloor>n\<rfloor>))]"
proof -
  from getBetas_length [OF assms] obtain betas where
    b: "getBetas params = Inr betas" and len: "length betas = nat (max 1 \<lfloor>n\<rfloor>)"
    by blast
  have "calculateSchedule params = Inr (scheduleLoop 0 (Num 1) betas)"
    using b by (simp add: calculateSchedule_def)
  moreover have "map t (scheduleLoop 0 (Num 1) betas) = [1 ..< Suc (nat (max 1 \<lfloor>n\<rfloor>))]"
    by (simp only: scheduleLoop_t len) simp
  ultimately show ?thesis
    using len by (simp add: scheduleLoop_length)
qed

theorem calculateSchedule_length_witness:
  "numTimesteps \<lparr> betaStart = Num 0.0001, betaEnd = Num 0.02, numTimesteps = Num 3.7,
       schedule = RECIP \<rparr> = Num 3.7 \<and> \<lfloor>3.7 :: real\<rfloor> < 2 ^ 32 \<and>
   (\<exists>data. calculateSchedule
       \<lparr> betaStart = Num 0.0001, betaEnd = Num 0.02, numTimesteps = Num 3.7,
         schedule = RECIP \<rparr> = Inr data \<and>
      length data = 3 \<and> map t data = [1, 2, 3])"
proof -
  have f: "\<lfloor>3.7 :: real\<rfloor> = 3" by (simp add: floor_eq_iff)
  have u: "[Suc 0 ..< 4] = [Suc 0, 2, 3]" by (simp add: upt_rec)
  show ?thesis
    using calculateSchedule_length
      [of "\<lparr> betaStart = Num 0.0001, betaEnd = Num 0.02, numTimesteps = Num 3.7,
         schedule = RECIP \<rparr>" "3.7"]
    by (simp add: f u)
qed

subsection \<open>Step counts that are not finite\<close>

text \<open>
  A \<open>NaN\<close> count passes the \<open>count < 2\<close> test as false and reaches the array construction:
  \<open>Array.from\<close> reads the length \<open>NaN\<close> as 0, while \<open>Array(NaN)\<close> raises. The solver then
  reads \<open>snrDb\<close> of \<open>undefined\<close>.
\<close>

lemma getBetas_NaN_steps:
  "getBetas \<lparr> betaStart = bStart, betaEnd = bEnd, numTimesteps = NaN, schedule = LINEAR \<rparr>
     = Inr []"
  "getBetas \<lparr> betaStart = bStart, betaEnd = bEnd, numTimesteps = NaN, schedule = CONST' \<rparr>
     = Inl RangeError"
  "getBetas \<lparr> betaStart = bStart, betaEnd = bEnd, numTimesteps = PosInfinity, schedule = LINEAR \<rparr>
     = Inl RangeError"
  by (simp_all add: getBetas_def linspace_def Array_from_def)

lemma solveBetaEndForSNR_NaN_steps:
  "solveBetaEndForSNR target bStart NaN LINEAR = Inl TypeError"
  unfolding solveBetaEndForSNR_def
  by (subst solveLoop.simps)
    (simp add: calculateSchedule_def getBetas_def linspace_def Array_from_def)

section \<open>Single-step schedules\<close>

lemma linspace_single: "linspace a b (Num 1) = Inr [a]"
  by (simp add: linspace_def)




text \<open>
  SQRT and QUAD do not return a negative \<open>betaStart\<close> either: the square loses the sign, and
  \<open>Math.sqrt\<close> of a negative number is \<open>NaN\<close>.
\<close>

lemma single_step_negative_start:
  "map_sum id (map beta)
     (calculateSchedule
        \<lparr> betaStart = Num (- 1), betaEnd = Num 0.02, numTimesteps = Num 1, schedule = SQRT \<rparr>)
     = Inr [Num 1]"
  "map_sum id (map beta)
     (calculateSchedule
        \<lparr> betaStart = Num (- 1), betaEnd = Num 0.02, numTimesteps = Num 1, schedule = QUAD \<rparr>)
     = Inr [NaN]"
  by (simp_all add: calculateSchedule_def getBetas_def linspace_def Let_def)



subsection \<open>The RECIP family\<close>

lemma linspace_descending:
  assumes "1 \<le> c" and "c < 2 ^ 32"
  shows "linspace (Num (of_int c)) (Num 1) (Num (of_int c)) =
     Inr (map (\<lambda>i. Num (of_int c - real i)) [0 ..< nat c])"
proof (cases "c < 2")
  case True
  with assms(1) have c: "c = 1" by simp
  have "[0 ..< nat 1] = [0]" by simp
  then show ?thesis unfolding c by (simp add: linspace_single)
next
  case False
  then have c2: "2 \<le> c" by simp
  have cc: "c = max 1 \<lfloor>real_of_int c\<rfloor>" using assms(1) by simp
  have "(1 - real_of_int c) / (real_of_int c - 1) = - 1"
    using c2 by (simp add: field_simps)
  then have "real_of_int c + (1 - real_of_int c) / (real_of_int c - 1) * real i
      = real_of_int c - real i" for i
    by simp
  then show ?thesis
    by (simp only: linspace_many [OF cc c2 assms(2)])
qed

text \<open>
  Claim C9: for RECIP with \<open>n = max 1 (floor numTimesteps)\<close> steps (\<open>n < 2^32\<close>), the betas
  are \<open>betaEnd * (1 / v)\<close> elementwise for \<open>v = linspace n 1 n\<close>, \<open>v\<close> is strictly
  descending, and for \<open>betaEnd > 0\<close> the betas ascend strictly from \<open>betaEnd / n\<close> at the first
  step to \<open>betaEnd\<close> at the last.
\<close>

theorem recip_betas:
  assumes "numTimesteps params = Num n" and "\<lfloor>n\<rfloor> < 2 ^ 32" and "schedule params = RECIP"
  shows "\<exists>v betas.
     linspace (Num (of_int (max 1 \<lfloor>n\<rfloor>))) (Num 1) (Num (of_int (max 1 \<lfloor>n\<rfloor>))) = Inr v \<and>
     getBetas params = Inr betas \<and>
     betas = map (\<lambda>x. betaEnd params * (Num 1 / x)) v \<and>
     length v = nat (max 1 \<lfloor>n\<rfloor>) \<and>
     (\<forall>i j. i < j \<and> j < length v \<longrightarrow> v ! j < v ! i) \<and>
     (\<forall>be. betaEnd params = Num be \<and> 0 < be \<longrightarrow>
        betas ! 0 = Num (be / of_int (max 1 \<lfloor>n\<rfloor>)) \<and>
        betas ! (length betas - 1) = Num be \<and>
        (\<forall>i j. i < j \<and> j < length betas \<longrightarrow> betas ! i < betas ! j))"
proof -
  define c where "c = max 1 \<lfloor>n\<rfloor>"
  have c1: "1 \<le> c" by (simp add: c_def)
  have cb: "c < 2 ^ 32" using assms(2) unfolding c_def by (simp only: max_less_iff_conj) simp
  have cnt: "Math_max (Num 1) (Math_floor (numTimesteps params)) = Num (of_int c)"
    by (simp only: assms(1) c_def count_Num)
  define v where "v = map (\<lambda>i. Num (of_int c - real i)) [0 ..< nat c]"
  define betas where "betas = map (\<lambda>x. betaEnd params * (Num 1 / x)) v"
  have lin: "linspace (Num (of_int c)) (Num 1) (Num (of_int c)) = Inr v"
    unfolding v_def by (rule linspace_descending [OF c1 cb])
  have gb: "getBetas params = Inr betas"
    by (simp add: getBetas_def cnt assms(3) Let_def lin betas_def)
  have len: "length v = nat c" by (simp add: v_def)
  have lenb: "length betas = nat c" by (simp add: betas_def len)
  have vn: "v ! i = Num (of_int c - real i)" if "i < nat c" for i
    using that by (simp add: v_def)
  have pos: "0 < real_of_int c - real i" if "i < nat c" for i
    using that by linarith
  have desc: "v ! j < v ! i" if "i < j" and "j < length v" for i j
  proof -
    have "i < nat c" using that len by simp
    then show ?thesis using that len by (simp add: vn)
  qed
  have bn: "betas ! i = Num (be / (of_int c - real i))"
    if "i < nat c" and "betaEnd params = Num be" for i be
    using that pos [of i] by (simp add: betas_def len vn)
  have asc: "betas ! i < betas ! j"
    if "i < j" and "j < length betas" and "betaEnd params = Num be" and "0 < be" for i j be
  proof -
    have j: "j < nat c" and i: "i < nat c" using that lenb by simp_all
    have "be / (of_int c - real i) < be / (of_int c - real j)"
      using that(1,4) pos [OF i] pos [OF j] by (simp add: frac_less2)
    then show ?thesis by (simp add: bn [OF i that(3)] bn [OF j that(3)])
  qed
  have first: "betas ! 0 = Num (be / of_int c)" if "betaEnd params = Num be" for be
    using bn [of 0 be] that c1 by simp
  have last: "betas ! (length betas - 1) = Num be" if "betaEnd params = Num be" for be
  proof -
    have "real (nat c - 1) = of_int c - 1" using c1 by (simp add: of_nat_diff)
    then show ?thesis using bn [of "nat c - 1" be] that c1 by (simp add: lenb)
  qed
  have v_desc: "\<forall>i j. i < j \<and> j < length v \<longrightarrow> v ! j < v ! i"
    using desc by simp
  have b_asc: "\<forall>be. betaEnd params = Num be \<and> 0 < be \<longrightarrow>
        betas ! 0 = Num (be / of_int c) \<and>
        betas ! (length betas - 1) = Num be \<and>
        (\<forall>i j. i < j \<and> j < length betas \<longrightarrow> betas ! i < betas ! j)"
  proof (intro allI impI conjI)
    fix be assume "betaEnd params = Num be \<and> 0 < be"
    then have "betaEnd params = Num be" by simp
    then show "betas ! 0 = Num (be / of_int c)" by (rule first)
  next
    fix be assume "betaEnd params = Num be \<and> 0 < be"
    then have "betaEnd params = Num be" by simp
    then show "betas ! (length betas - 1) = Num be" by (rule last)
  next
    fix be i j assume "betaEnd params = Num be \<and> 0 < be" and "i < j \<and> j < length betas"
    then show "betas ! i < betas ! j" using asc [of i j be] by simp
  qed
  show ?thesis
    unfolding c_def [symmetric]
    by (intro exI [of _ v] exI [of _ betas] conjI lin gb betas_def len v_desc b_asc)
qed


theorem recip_betas_witness:
  "numTimesteps \<lparr> betaStart = Num 0.0001, betaEnd = Num 0.02, numTimesteps = Num 2,
       schedule = RECIP \<rparr> = Num 2 \<and>
   \<lfloor>2 :: real\<rfloor> < 2 ^ 32 \<and>
   (\<exists>v betas. linspace (Num 2) (Num 1) (Num 2) = Inr v \<and>
      getBetas \<lparr> betaStart = Num 0.0001, betaEnd = Num 0.02, numTimesteps = Num 2,
        schedule = RECIP \<rparr> = Inr betas \<and>
      length v = 2 \<and> v ! 1 < v ! 0 \<and>
      betas ! 0 = Num 0.01 \<and> betas ! (length betas - 1) = Num 0.02 \<and> betas ! 0 < betas ! 1)"
proof -
  let ?P = "\<lparr> betaStart = Num 0.0001, betaEnd = Num 0.02, numTimesteps = Num 2,
       schedule = RECIP \<rparr>"
  have h1: "numTimesteps ?P = Num 2" by simp
  have h2: "\<lfloor>2 :: real\<rfloor> < 2 ^ 32" by simp
  have h3: "schedule ?P = RECIP" by simp
  have m: "max 1 \<lfloor>2 :: real\<rfloor> = 2" by simp
  from recip_betas [OF h1 h2 h3]
  obtain v betas where
    l: "linspace (Num (of_int (max 1 \<lfloor>2 :: real\<rfloor>))) (Num 1) (Num (of_int (max 1 \<lfloor>2 :: real\<rfloor>))) = Inr v"
    and g: "getBetas ?P = Inr betas"
    and bv: "betas = map (\<lambda>x. betaEnd ?P * (Num 1 / x)) v"
    and len: "length v = nat (max 1 \<lfloor>2 :: real\<rfloor>)"
    and d: "\<forall>i j. i < j \<and> j < length v \<longrightarrow> v ! j < v ! i"
    and a: "\<forall>be. betaEnd ?P = Num be \<and> 0 < be \<longrightarrow>
        betas ! 0 = Num (be / of_int (max 1 \<lfloor>2 :: real\<rfloor>)) \<and>
        betas ! (length betas - 1) = Num be \<and>
        (\<forall>i j. i < j \<and> j < length betas \<longrightarrow> betas ! i < betas ! j)"
    by blast
  have l': "linspace (Num 2) (Num 1) (Num 2) = Inr v" using l unfolding m by simp
  have len': "length v = 2" using len unfolding m by simp
  have lenb: "length betas = 2" using bv len' by simp
  have d': "v ! 1 < v ! 0" using d len' by simp
  have pre: "betaEnd ?P = Num 0.02 \<and> (0 :: real) < 0.02" by simp
  have a': "betas ! 0 = Num (0.02 / of_int (max 1 \<lfloor>2 :: real\<rfloor>)) \<and>
        betas ! (length betas - 1) = Num 0.02 \<and>
        (\<forall>i j. i < j \<and> j < length betas \<longrightarrow> betas ! i < betas ! j)"
    by (rule a [THEN spec, THEN mp, OF pre])
  then have b0: "betas ! 0 = Num 0.01" unfolding m by simp
  from a' have bl: "betas ! (length betas - 1) = Num 0.02" by simp
  from a' lenb have asc: "betas ! 0 < betas ! 1" by simp
  show ?thesis
    using h1 h2 l' g len' d' b0 bl asc by blast
qed

section \<open>The solver\<close>

lemma schedule_nonempty:
  assumes "\<lfloor>n\<rfloor> < 2 ^ 32"
  shows "\<exists>data. calculateSchedule
      \<lparr> betaStart = bStart, betaEnd = e, numTimesteps = Num n, schedule = sched \<rparr> = Inr data
    \<and> data \<noteq> []"
proof -
  let ?P = "\<lparr> betaStart = bStart, betaEnd = e, numTimesteps = Num n, schedule = sched \<rparr>"
  have "numTimesteps ?P = Num n" by simp
  from getBetas_length [OF this assms] obtain betas where
    b: "getBetas ?P = Inr betas" and len: "length betas = nat (max 1 \<lfloor>n\<rfloor>)"
    by blast
  have "0 < length betas" unfolding len by simp
  then have "scheduleLoop 0 (Num 1) betas \<noteq> []"
    using scheduleLoop_length [of 0 "Num 1" betas] by auto
  then show ?thesis using b by (simp add: calculateSchedule_def)
qed

lemma solveLoop_iteration:
  assumes "\<lfloor>n\<rfloor> < 2 ^ 32" and "i < 40"
  shows "solveLoop target bStart (Num n) sched i (Num low) (Num high) =
     solveLoop target bStart (Num n) sched (Suc i)
       (Num (fst (bisectionStep (terminalSnrDb bStart (Num n) sched) target (low, high))))
       (Num (snd (bisectionStep (terminalSnrDb bStart (Num n) sched) target (low, high))))"
proof -
  let ?mid = "(low + high) / 2"
  from schedule_nonempty [OF assms(1), of bStart "Num ?mid" sched]
  obtain data where d: "calculateSchedule
      \<lparr> betaStart = bStart, betaEnd = Num ?mid, numTimesteps = Num n, schedule = sched \<rparr>
      = Inr data" and ne: "data \<noteq> []"
    by blast
  have mid: "(Num low + Num high) / Num 2 = Num ?mid" by simp
  have f: "terminalSnrDb bStart (Num n) sched ?mid = snrDb (data ! (length data - 1))"
    using ne by (simp add: terminalSnrDb_def d last_conv_nth)
  have "solveLoop target bStart (Num n) sched i (Num low) (Num high) =
     (if target < snrDb (data ! (length data - 1))
      then solveLoop target bStart (Num n) sched (i + 1) (Num ?mid) (Num high)
      else solveLoop target bStart (Num n) sched (i + 1) (Num low) (Num ?mid))"
    using assms(2) ne
    by (subst solveLoop.simps) (simp only: mid d Let_def if_True if_False sum.case)
  then show ?thesis
    by (simp add: f bisectionStep_def Let_def)
qed

lemma solveLoop_exit:
  "solveLoop target bStart nSteps sched 40 low high = Inr high"
  by (subst solveLoop.simps) simp

lemma solveLoop_bisection:
  assumes "\<lfloor>n\<rfloor> < 2 ^ 32"
  shows "i + k = 40 \<Longrightarrow>
     solveLoop target bStart (Num n) sched i (Num low) (Num high) =
       Inr (Num (snd ((bisectionStep (terminalSnrDb bStart (Num n) sched) target ^^ k)
                        (low, high))))"
proof (induction k arbitrary: i low high)
  case 0
  then show ?case by (simp add: solveLoop_exit)
next
  case (Suc k)
  then have i: "i < 40" and ik: "Suc i + k = 40" by simp_all
  show ?case
    unfolding solveLoop_iteration [OF assms i] Suc.IH [OF ik] funpow_Suc_right
    by simp
qed

lemma bisectionStep_bracket:
  assumes "bisectionStep f target (low, high) = (low', high')"
    and "lo0 \<le> low" and "low < high" and "high \<le> hi0"
  shows "lo0 \<le> low' \<and> low' < high' \<and> high' \<le> hi0 \<and> high' - low' = (high - low) / 2"
  using assms by (auto simp: bisectionStep_def Let_def field_simps split: if_splits)

lemma bisection_bracket:
  assumes "lo0 \<le> low" and "low < high" and "high \<le> hi0"
  shows "lo0 \<le> fst ((bisectionStep f target ^^ k) (low, high)) \<and>
     fst ((bisectionStep f target ^^ k) (low, high)) < snd ((bisectionStep f target ^^ k) (low, high)) \<and>
     snd ((bisectionStep f target ^^ k) (low, high)) \<le> hi0 \<and>
     snd ((bisectionStep f target ^^ k) (low, high)) - fst ((bisectionStep f target ^^ k) (low, high))
       = (high - low) / 2 ^ k"
proof (induction k)
  case 0
  then show ?case using assms by simp
next
  case (Suc k)
  obtain l h where lh: "(bisectionStep f target ^^ k) (low, high) = (l, h)"
    by (cases "(bisectionStep f target ^^ k) (low, high)")
  obtain l' h' where lh': "bisectionStep f target (l, h) = (l', h')"
    by (cases "bisectionStep f target (l, h)")
  from Suc lh have "lo0 \<le> l" "l < h" "h \<le> hi0" "h - l = (high - low) / 2 ^ k" by simp_all
  with bisectionStep_bracket [OF lh'] show ?case
    by (simp add: lh lh')
qed

lemma getBetas_too_many:
  assumes "numTimesteps params = Num n" and "2 ^ 32 \<le> \<lfloor>n\<rfloor>"
  shows "getBetas params = Inl RangeError"
proof -
  define c where "c = max 1 \<lfloor>n\<rfloor>"
  have cb: "2 ^ 32 \<le> c" using assms(2) by (simp add: c_def)
  then have c2: "\<not> c < 2" by simp
  have cnt: "Math_max (Num 1) (Math_floor (numTimesteps params)) = Num (of_int c)"
    by (simp only: assms(1) c_def count_Num)
  have cc: "c = max 1 \<lfloor>real_of_int c\<rfloor>" using cb by simp
  have lin: "linspace a b (Num (of_int c)) = Inl RangeError" for a b
    using c2 cb by (simp only: linspace_Num [OF cc] if_False if_True)
  have "real_of_int (2 ^ 32) \<le> real_of_int c" using cb by (simp only: of_int_le_iff)
  then have "\<not> real_of_int c \<le> 2 ^ 32 - 1" by simp
  then have fill: "Array_fill (Num (of_int c)) v = Inl RangeError" for v :: number
    by simp
  show ?thesis
    by (cases "schedule params")
      (simp_all add: getBetas_def cnt lin fill Let_def del: Array_fill.simps)
qed

lemma solveBetaEndForSNR_too_many:
  assumes "2 ^ 32 \<le> \<lfloor>n\<rfloor>"
  shows "solveBetaEndForSNR target bStart (Num n) sched = Inl RangeError"
proof -
  have "getBetas \<lparr> betaStart = bStart, betaEnd = e, numTimesteps = Num n, schedule = sched \<rparr>
      = Inl RangeError" for e
    by (rule getBetas_too_many [OF _ assms]) simp
  then have "calculateSchedule
      \<lparr> betaStart = bStart, betaEnd = e, numTimesteps = Num n, schedule = sched \<rparr>
      = Inl RangeError" for e
    by (simp add: calculateSchedule_def)
  then show ?thesis
    unfolding solveBetaEndForSNR_def
    by (subst solveLoop.simps) (simp add: Let_def)
qed

text \<open>
  Claim C3, as stated, fails: the schedule is evaluated inside every iteration, and for
  \<open>numTimesteps = 2^32\<close> the first evaluation raises \<open>RangeError\<close>; the solver performs no
  iteration to its end and returns nothing.
\<close>

theorem solveBetaEndForSNR_counterexample:
  "solveBetaEndForSNR (Num 0) (Num 0.0001) (Num 4294967296) LINEAR = Inl RangeError"
  by (rule solveBetaEndForSNR_too_many) simp

text \<open>
  Claim C3 (amended): for every finite \<open>numTimesteps\<close> with \<open>floor numTimesteps < 2^32\<close>, the
  solver is 40 applications of the bisection step to the bracket \<open>(1e-7, 0.999)\<close>, with no
  early exit, and returns the final \<open>high\<close>, which lies in \<open>(1e-7, 0.999]\<close>.
\<close>

theorem solveBetaEndForSNR_bisection:
  assumes "\<lfloor>n\<rfloor> < 2 ^ 32"
  shows "\<exists>low high.
     (bisectionStep (terminalSnrDb bStart (Num n) sched) target ^^ 40) (1 / 10 ^ 7, 0.999)
       = (low, high) \<and>
     solveBetaEndForSNR target bStart (Num n) sched = Inr (Num high) \<and>
     1 / 10 ^ 7 < high \<and> high \<le> 0.999"
proof -
  let ?step = "bisectionStep (terminalSnrDb bStart (Num n) sched) target"
  obtain low high where lh: "(?step ^^ 40) (1 / 10 ^ 7, 0.999) = (low, high)"
    by (cases "(?step ^^ 40) (1 / 10 ^ 7, 0.999)")
  have "(1 :: real) / 10 ^ 7 \<le> 1 / 10 ^ 7" "(1 :: real) / 10 ^ 7 < 0.999" "(0.999 :: real) \<le> 0.999"
    by simp_all
  from bisection_bracket [OF this, where f = "terminalSnrDb bStart (Num n) sched"
      and target = target and k = 40]
  have "1 / 10 ^ 7 \<le> low" "low < high" "high \<le> 0.999"
    unfolding lh by simp_all
  moreover have "solveBetaEndForSNR target bStart (Num n) sched = Inr (Num high)"
    unfolding solveBetaEndForSNR_def
    using solveLoop_bisection [OF assms, where i = 0 and k = 40 and target = target
        and bStart = bStart and sched = sched and low = "1 / 10 ^ 7" and high = "0.999"]
    by (simp only: lh snd_conv)
  ultimately show ?thesis using lh by auto
qed

theorem solveBetaEndForSNR_bisection_witness:
  "\<lfloor>100 :: real\<rfloor> < 2 ^ 32 \<and>
   (\<exists>low high.
     (bisectionStep (terminalSnrDb (Num 0.0001) (Num 100) LINEAR) (Num 0) ^^ 40)
       (1 / 10 ^ 7, 0.999) = (low, high) \<and>
     solveBetaEndForSNR (Num 0) (Num 0.0001) (Num 100) LINEAR = Inr (Num high) \<and>
     1 / 10 ^ 7 < high \<and> high \<le> 0.999)"
proof -
  have h: "\<lfloor>100 :: real\<rfloor> < 2 ^ 32" by simp
  from solveBetaEndForSNR_bisection [OF h, of "Num 0.0001" LINEAR "Num 0"] h
  show ?thesis by (intro conjI)
qed

section \<open>Monotonicity of the LINEAR schedule\<close>

lemma record_finite:
  assumes k: "k < length xs"
    and A: "A = prod_list (map (\<lambda>x. 1 - x) (take (Suc k) xs))"
    and A1: "A \<noteq> 1"
  shows "alphaBar (scheduleLoop 0 (Num 1) (map Num xs) ! k) = Num A"
    and "snr (scheduleLoop 0 (Num 1) (map Num xs) ! k) = Num (A / (1 - A))"
    and "snrDb (scheduleLoop 0 (Num 1) (map Num xs) ! k)
           = Num (10 * log 10 (max (1 / 10 ^ 20) (A / (1 - A))))"
proof -
  have k': "k < length (map Num xs)" using k by simp
  have ab: "foldl (*) (Num 1) (map (\<lambda>b. Num 1 - b) (take (Suc k) (map Num xs))) = Num A"
    using alphaBar_Num [of 1 "take (Suc k) xs"] by (simp add: take_map A)
  have om: "or_else (Num 1 - Num A) (Num (1 / 10 ^ 12)) = Num (1 - A)"
    using A1 by (simp add: or_else_def)
  have q: "Num A / Num (1 - A) = Num (A / (1 - A))"
    using A1 by simp
  have pos: "0 < max (1 / 10 ^ 20) (A / (1 - A))"
    by (rule less_le_trans [of _ "1 / 10 ^ 20"]) simp_all
  have lg: "Math_log10 (Math_max (Num (1 / 10 ^ 20)) (Num (A / (1 - A))))
      = Num (log 10 (max (1 / 10 ^ 20) (A / (1 - A))))"
    using pos by (simp only: Math_max_Num Math_log10_def Math_log.simps) simp
  show "alphaBar (scheduleLoop 0 (Num 1) (map Num xs) ! k) = Num A"
    unfolding scheduleLoop_nth [OF k'] Let_def ab by simp
  show "snr (scheduleLoop 0 (Num 1) (map Num xs) ! k) = Num (A / (1 - A))"
    unfolding scheduleLoop_nth [OF k'] Let_def ab om q by simp
  show "snrDb (scheduleLoop 0 (Num 1) (map Num xs) ! k)
           = Num (10 * log 10 (max (1 / 10 ^ 20) (A / (1 - A))))"
    unfolding scheduleLoop_nth [OF k'] Let_def ab om q lg by simp
qed

lemma getBetas_linear:
  assumes "schedule params = LINEAR"
    and "betaStart params = Num bs" and "betaEnd params = Num be"
    and "numTimesteps params = Num n" and c: "c = max 1 \<lfloor>n\<rfloor>" and cb: "c < 2 ^ 32"
  shows "getBetas params =
     Inr (map Num (if c < 2 then [bs]
                   else map (\<lambda>i. bs + (be - bs) / (of_int c - 1) * real i) [0 ..< nat c]))"
proof -
  have c1: "1 \<le> c" by (simp add: c)
  have cnt: "Math_max (Num 1) (Math_floor (numTimesteps params)) = Num (of_int c)"
    by (simp only: assms(4) c count_Num)
  have cc: "c = max 1 \<lfloor>real_of_int c\<rfloor>" using c1 by simp
  have g: "getBetas params = linspace (Num bs) (Num be) (Num (of_int c))"
    by (simp add: getBetas_def cnt assms(1,2,3))
  show ?thesis
  proof (cases "c < 2")
    case True
    then show ?thesis unfolding g by (simp add: linspace_one [OF cc True])
  next
    case False
    then have "2 \<le> c" by simp
    from linspace_many [OF cc this cb] False show ?thesis
      unfolding g by (simp add: comp_def)
  qed
qed

lemma linear_betas_range:
  assumes "lo \<le> bs" and "lo \<le> be" and "bs \<le> hi" and "be \<le> hi" and "1 \<le> c"
    and "x \<in> set (if c < 2 then [bs]
                   else map (\<lambda>i. bs + (be - bs) / (of_int c - 1) * real i) [0 ..< nat c])"
  shows "lo \<le> x \<and> x \<le> (hi :: real)"
proof (cases "c < 2")
  case True
  with assms show ?thesis by simp
next
  case False
  with assms(6) obtain i where i: "i < nat c" and x: "x = bs + (be - bs) / (of_int c - 1) * real i"
    by auto
  define u where "u = real i / (of_int c - 1)"
  have cpos: "0 < real_of_int c - 1" using False by simp
  have "real i \<le> of_int c - 1" using i by linarith
  then have u: "0 \<le> u" "u \<le> 1" using cpos by (simp_all add: u_def)
  have "(be - bs) / (of_int c - 1) * real i = u * (be - bs)"
    by (simp add: u_def)
  then have xu: "x = (1 - u) * bs + u * be"
    unfolding x by (simp only:) (simp add: algebra_simps)
  have "lo = (1 - u) * lo + u * lo" by (simp add: algebra_simps)
  also have "\<dots> \<le> (1 - u) * bs + u * be"
    using u assms(1,2) by (intro add_mono mult_left_mono) simp_all
  finally have l: "lo \<le> x" unfolding xu .
  have "(1 - u) * bs + u * be \<le> (1 - u) * hi + u * hi"
    using u assms(3,4) by (intro add_mono mult_left_mono) simp_all
  also have "\<dots> = hi" by (simp add: algebra_simps)
  finally have "x \<le> hi" unfolding xu .
  with l show ?thesis ..
qed




lemma snr_increasing:
  assumes "0 < a" and "a < b" and "b < (1 :: real)"
  shows "a / (1 - a) < b / (1 - b)"
  using assms by (simp add: field_simps)

lemma snrDb_monotone:
  assumes "x \<le> y"
  shows "10 * log 10 (max (1 / 10 ^ 20) x) \<le> 10 * log 10 (max (1 / 10 ^ 20) y)"
proof -
  have "0 < max (1 / 10 ^ 20) x"
    by (rule less_le_trans [of _ "1 / 10 ^ 20"]) simp_all
  moreover have "max (1 / 10 ^ 20) x \<le> max (1 / 10 ^ 20) y"
    using assms by (simp add: max_def)
  ultimately have "log 10 (max (1 / 10 ^ 20) x) \<le> log 10 (max (1 / 10 ^ 20) y)"
    by (simp add: log_le_cancel_iff del: max_less_iff_conj)
  then show ?thesis by simp
qed

lemma snrDb_strict:
  assumes "x < y" and "1 / 10 ^ 20 < y"
  shows "10 * log 10 (max (1 / 10 ^ 20) x) < 10 * log 10 (max (1 / 10 ^ 20) y)"
proof -
  have "0 < max (1 / 10 ^ 20) x"
    by (rule less_le_trans [of _ "1 / 10 ^ 20"]) simp_all
  moreover have "max (1 / 10 ^ 20) x < max (1 / 10 ^ 20) y"
    using assms by (simp add: max_def)
  ultimately have "log 10 (max (1 / 10 ^ 20) x) < log 10 (max (1 / 10 ^ 20) y)"
    by (simp add: log_less_cancel_iff del: max_less_iff_conj)
  then show ?thesis by simp
qed

lemma log10_floor: "log 10 (1 / 10 ^ 20) = - 20"
  using log_divide [of 10 1 "10 ^ 20"] log_pow_cancel [of 10 20] by simp

lemma snrDb_above_floor:
  assumes "- 200 < 10 * log 10 (max (1 / 10 ^ 20) y)"
  shows "1 / 10 ^ 20 < y"
proof (rule ccontr)
  assume "\<not> 1 / 10 ^ 20 < y"
  then have "max (1 / 10 ^ 20) y = 1 / 10 ^ 20" by (simp add: max_def)
  with assms log10_floor show False by simp
qed






section \<open>The solver inverts the LINEAR schedule\<close>

lemma prod_list_range:
  "\<forall>x\<in>set ys. 0 < x \<and> x \<le> (1 :: real) \<Longrightarrow> 0 < prod_list ys \<and> prod_list ys \<le> 1"
proof (induction ys)
  case Nil
  then show ?case by simp
next
  case (Cons y ys)
  then have "0 < prod_list ys" "prod_list ys \<le> 1" "0 < y" "y \<le> 1" by simp_all
  moreover from this have "y * prod_list ys \<le> 1 * 1"
    by (intro mult_mono) simp_all
  ultimately show ?case by simp
qed

lemma prod_list_map_mono:
  "\<forall>i\<in>set is. 0 < f i \<and> f i \<le> (g i :: real) \<Longrightarrow>
   prod_list (map f is) \<le> prod_list (map g is)"
proof (induction "is")
  case Nil
  then show ?case by simp
next
  case (Cons i "is")
  then have IH: "prod_list (map f is) \<le> prod_list (map g is)" by simp
  from Cons.prems have fi: "0 < f i" "f i \<le> g i" by simp_all
  have "0 \<le> prod_list (map f is)"
    by (rule prod_list_nonneg) (use Cons.prems in auto)
  with IH fi have "f i * prod_list (map f is) \<le> g i * prod_list (map g is)"
    by (intro mult_mono) simp_all
  then show ?case by simp
qed

text \<open>The betas of a LINEAR schedule of \<open>c \<ge> 2\<close> steps end in \<open>betaEnd\<close>.\<close>

lemma linear_betas_split:
  assumes "2 \<le> c"
  shows "map (\<lambda>i. bs + (be - bs) / (of_int c - 1) * real i) [0 ..< nat c]
     = map (\<lambda>i. bs + (be - bs) / (of_int c - 1) * real i) [0 ..< nat c - 1] @ [be :: real]"
proof -
  have n: "nat c = Suc (nat c - 1)" using assms by simp
  have r: "real (nat c - 1) = of_int c - 1" using assms by (simp add: of_nat_diff)
  have "[0 ..< nat c] = [0 ..< nat c - 1] @ [nat c - 1]"
    by (subst n) simp
  then have "map (\<lambda>i. bs + (be - bs) / (of_int c - 1) * real i) [0 ..< nat c]
     = map (\<lambda>i. bs + (be - bs) / (of_int c - 1) * real i) [0 ..< nat c - 1]
       @ [bs + (be - bs) / (of_int c - 1) * real (nat c - 1)]"
    by simp
  moreover have "bs + (be - bs) / (of_int c - 1) * real (nat c - 1) = be"
    unfolding r using assms by simp
  ultimately show ?thesis by simp
qed

lemma linear_alphaBar_split:
  assumes "2 \<le> c"
  shows "prod_list (map (\<lambda>x. 1 - x)
            (map (\<lambda>i. bs + (be - bs) / (of_int c - 1) * real i) [0 ..< nat c]))
     = prod_list (map (\<lambda>i. 1 - (bs + (be - bs) / (of_int c - 1) * real i)) [0 ..< nat c - 1])
       * (1 - be :: real)"
  unfolding linear_betas_split [OF assms] by (simp add: comp_def)

lemma linear_factor:
  assumes "2 \<le> c" and "i \<in> set [0 ..< nat c - 1]"
    and "0 \<le> bs" and "bs < 1" and "0 < be" and "be < 1"
  shows "0 < 1 - (bs + (be - bs) / (of_int c - 1) * real i)"
    and "1 - (bs + (be - bs) / (of_int c - 1) * real i) \<le> 1"
proof -
  have "i \<in> set [0 ..< nat c]" using assms(2) by simp
  then have "bs + (be - bs) / (of_int c - 1) * real i
      \<in> set (map (\<lambda>i. bs + (be - bs) / (of_int c - 1) * real i) [0 ..< nat c])"
    unfolding set_map by (rule imageI)
  moreover have "(if c < 2 then [bs]
              else map (\<lambda>i. bs + (be - bs) / (of_int c - 1) * real i) [0 ..< nat c])
       = map (\<lambda>i. bs + (be - bs) / (of_int c - 1) * real i) [0 ..< nat c]"
    using assms(1) by simp
  ultimately have "bs + (be - bs) / (of_int c - 1) * real i
      \<in> set (if c < 2 then [bs]
              else map (\<lambda>i. bs + (be - bs) / (of_int c - 1) * real i) [0 ..< nat c])"
    by (simp only:)
  from linear_betas_range [OF _ _ _ _ _ this, of "min bs be" "max bs be"] assms(1)
  have "min bs be \<le> bs + (be - bs) / (of_int c - 1) * real i"
    and "bs + (be - bs) / (of_int c - 1) * real i \<le> max bs be"
    by simp_all
  with assms(3-6)
  show "0 < 1 - (bs + (be - bs) / (of_int c - 1) * real i)"
    and "1 - (bs + (be - bs) / (of_int c - 1) * real i) \<le> 1"
    by (simp_all add: min_def max_def split: if_splits)
qed

lemma linear_factor_mono:
  assumes "2 \<le> c" and "be1 \<le> be2"
  shows "1 - (bs + (be2 - bs) / (of_int c - 1) * real i)
       \<le> 1 - (bs + (be1 - bs) / (of_int c - 1) * real i)"
proof -
  have "0 \<le> real i / (of_int c - 1)" using assms(1) by simp
  then have "(be1 - bs) * (real i / (of_int c - 1)) \<le> (be2 - bs) * (real i / (of_int c - 1))"
    using assms(2) by (intro mult_right_mono) simp_all
  then show ?thesis by simp
qed

lemma linear_alphaBar_range:
  assumes "2 \<le> c" and "0 \<le> bs" and "bs < 1" and "0 < be" and "be < 1"
  shows "0 < prod_list (map (\<lambda>x. 1 - x)
            (map (\<lambda>i. bs + (be - bs) / (of_int c - 1) * real i) [0 ..< nat c]))"
    and "prod_list (map (\<lambda>x. 1 - x)
            (map (\<lambda>i. bs + (be - bs) / (of_int c - 1) * real i) [0 ..< nat c])) < 1"
proof -
  let ?Q = "prod_list (map (\<lambda>i. 1 - (bs + (be - bs) / (of_int c - 1) * real i)) [0 ..< nat c - 1])"
  have "\<forall>x\<in>set (map (\<lambda>i. 1 - (bs + (be - bs) / (of_int c - 1) * real i)) [0 ..< nat c - 1]).
      0 < x \<and> x \<le> 1"
    using linear_factor [OF assms(1) _ assms(2-5)] by auto
  from prod_list_range [OF this] have Q: "0 < ?Q" "?Q \<le> 1" by simp_all
  show "0 < prod_list (map (\<lambda>x. 1 - x)
            (map (\<lambda>i. bs + (be - bs) / (of_int c - 1) * real i) [0 ..< nat c]))"
    unfolding linear_alphaBar_split [OF assms(1)] using Q assms(5) by simp
  have "?Q * (1 - be) \<le> 1 * (1 - be)"
    using Q assms(5) by (intro mult_right_mono) simp_all
  then show "prod_list (map (\<lambda>x. 1 - x)
            (map (\<lambda>i. bs + (be - bs) / (of_int c - 1) * real i) [0 ..< nat c])) < 1"
    unfolding linear_alphaBar_split [OF assms(1)] using assms(4) by simp
qed

lemma linear_alphaBar_antimono:
  assumes "2 \<le> c" and "0 \<le> bs" and "bs < 1" and "0 < be1" and "be1 \<le> be2" and "be2 < 1"
  shows "prod_list (map (\<lambda>x. 1 - x)
            (map (\<lambda>i. bs + (be2 - bs) / (of_int c - 1) * real i) [0 ..< nat c]))
       \<le> prod_list (map (\<lambda>x. 1 - x)
            (map (\<lambda>i. bs + (be1 - bs) / (of_int c - 1) * real i) [0 ..< nat c]))"
proof -
  let ?Q1 = "prod_list (map (\<lambda>i. 1 - (bs + (be1 - bs) / (of_int c - 1) * real i)) [0 ..< nat c - 1])"
  let ?Q2 = "prod_list (map (\<lambda>i. 1 - (bs + (be2 - bs) / (of_int c - 1) * real i)) [0 ..< nat c - 1])"
  have b2: "0 < be2" using assms(4,5) by simp
  have "\<forall>i\<in>set [0 ..< nat c - 1].
      0 < 1 - (bs + (be2 - bs) / (of_int c - 1) * real i) \<and>
      1 - (bs + (be2 - bs) / (of_int c - 1) * real i)
        \<le> 1 - (bs + (be1 - bs) / (of_int c - 1) * real i)"
    using linear_factor(1) [OF assms(1) _ assms(2,3) b2 assms(6)]
      linear_factor_mono [OF assms(1,5)] by blast
  then have Q: "?Q2 \<le> ?Q1" by (rule prod_list_map_mono)
  have "\<forall>x\<in>set (map (\<lambda>i. 1 - (bs + (be2 - bs) / (of_int c - 1) * real i)) [0 ..< nat c - 1]).
      0 < x \<and> x \<le> 1"
    using linear_factor [OF assms(1) _ assms(2,3) b2 assms(6)] by auto
  from prod_list_range [OF this] have "0 \<le> ?Q2" by simp
  then have "?Q2 * (1 - be2) \<le> ?Q1 * (1 - be1)"
    using Q assms(5,6) by (intro mult_mono) simp_all
  then show ?thesis
    unfolding linear_alphaBar_split [OF assms(1)] .
qed

lemma linear_alphaBar_strict:
  assumes "2 \<le> c" and "0 \<le> bs" and "bs < 1" and "0 < be1" and "be1 < be2" and "be2 < 1"
  shows "prod_list (map (\<lambda>x. 1 - x)
            (map (\<lambda>i. bs + (be2 - bs) / (of_int c - 1) * real i) [0 ..< nat c]))
       < prod_list (map (\<lambda>x. 1 - x)
            (map (\<lambda>i. bs + (be1 - bs) / (of_int c - 1) * real i) [0 ..< nat c]))"
proof -
  let ?Q1 = "prod_list (map (\<lambda>i. 1 - (bs + (be1 - bs) / (of_int c - 1) * real i)) [0 ..< nat c - 1])"
  let ?Q2 = "prod_list (map (\<lambda>i. 1 - (bs + (be2 - bs) / (of_int c - 1) * real i)) [0 ..< nat c - 1])"
  have b2: "0 < be2" using assms(4,5) by simp
  have b1: "be1 < 1" using assms(5,6) by simp
  have le: "be1 \<le> be2" using assms(5) by simp
  have "\<forall>i\<in>set [0 ..< nat c - 1].
      0 < 1 - (bs + (be2 - bs) / (of_int c - 1) * real i) \<and>
      1 - (bs + (be2 - bs) / (of_int c - 1) * real i)
        \<le> 1 - (bs + (be1 - bs) / (of_int c - 1) * real i)"
    using linear_factor(1) [OF assms(1) _ assms(2,3) b2 assms(6)]
      linear_factor_mono [OF assms(1) le] by blast
  then have Q: "?Q2 \<le> ?Q1" by (rule prod_list_map_mono)
  have "\<forall>x\<in>set (map (\<lambda>i. 1 - (bs + (be1 - bs) / (of_int c - 1) * real i)) [0 ..< nat c - 1]).
      0 < x \<and> x \<le> 1"
    using linear_factor [OF assms(1) _ assms(2,3,4) b1] by auto
  from prod_list_range [OF this] have Q1: "0 < ?Q1" by simp
  have "?Q2 * (1 - be2) \<le> ?Q1 * (1 - be2)"
    using Q assms(6) by (intro mult_right_mono) simp_all
  also have "\<dots> < ?Q1 * (1 - be1)"
    using Q1 assms(5) by simp
  finally show ?thesis
    unfolding linear_alphaBar_split [OF assms(1)] .
qed


lemma terminal_record:
  assumes "xs \<noteq> []" and A: "A = prod_list (map (\<lambda>x. 1 - x) xs)" and A1: "A \<noteq> 1"
  shows "snrDb (last (scheduleLoop 0 (Num 1) (map Num xs)))
           = Num (10 * log 10 (max (1 / 10 ^ 20) (A / (1 - A))))"
proof -
  have k: "length xs - 1 < length xs" using assms(1) by simp
  have t: "take (Suc (length xs - 1)) xs = xs" using assms(1) by simp
  have A': "A = prod_list (map (\<lambda>x. 1 - x) (take (Suc (length xs - 1)) xs))"
    unfolding t by (rule A)
  have ne: "scheduleLoop 0 (Num 1) (map Num xs) \<noteq> []"
    using assms(1) scheduleLoop_length [of 0 "Num 1" "map Num xs"] by auto
  have "last (scheduleLoop 0 (Num 1) (map Num xs))
      = scheduleLoop 0 (Num 1) (map Num xs) ! (length xs - 1)"
    using ne by (simp add: last_conv_nth scheduleLoop_length)
  then show ?thesis
    using record_finite(3) [OF k A' A1] by simp
qed

lemma terminal_linear:
  assumes c: "c = max 1 \<lfloor>n\<rfloor>" and c2: "2 \<le> c" and cb: "c < 2 ^ 32"
    and "0 \<le> bs" and "bs < 1" and "0 < be" and "be < 1"
    and A: "A = prod_list (map (\<lambda>x. 1 - x)
            (map (\<lambda>i. bs + (be - bs) / (of_int c - 1) * real i) [0 ..< nat c]))"
  shows "calculateSchedule
       \<lparr> betaStart = Num bs, betaEnd = Num be, numTimesteps = Num n, schedule = LINEAR \<rparr>
     = Inr (scheduleLoop 0 (Num 1)
         (map Num (map (\<lambda>i. bs + (be - bs) / (of_int c - 1) * real i) [0 ..< nat c])))"
    and "snrDb (last (scheduleLoop 0 (Num 1)
         (map Num (map (\<lambda>i. bs + (be - bs) / (of_int c - 1) * real i) [0 ..< nat c]))))
     = Num (10 * log 10 (max (1 / 10 ^ 20) (A / (1 - A))))"
proof -
  let ?P = "\<lparr> betaStart = Num bs, betaEnd = Num be, numTimesteps = Num n, schedule = LINEAR \<rparr>"
  let ?xs = "map (\<lambda>i. bs + (be - bs) / (of_int c - 1) * real i) [0 ..< nat c]"
  have "getBetas ?P = Inr (map Num (if c < 2 then [bs] else ?xs))"
    by (rule getBetas_linear [OF _ _ _ _ c cb]) simp_all
  then have gb: "getBetas ?P = Inr (map Num ?xs)" using c2 by simp
  show "calculateSchedule ?P = Inr (scheduleLoop 0 (Num 1) (map Num ?xs))"
    unfolding calculateSchedule_def gb by simp
  have ne: "?xs \<noteq> []" using c2 by simp
  have "A \<noteq> 1" using linear_alphaBar_range(2) [OF c2 assms(4-7)] unfolding A by simp
  from terminal_record [OF ne A this]
  show "snrDb (last (scheduleLoop 0 (Num 1) (map Num ?xs)))
     = Num (10 * log 10 (max (1 / 10 ^ 20) (A / (1 - A))))" .
qed

lemma snr_mono:
  assumes "0 < a" and "a \<le> b" and "b < (1 :: real)"
  shows "a / (1 - a) \<le> b / (1 - b)"
  using assms by (simp add: field_simps)

lemma bisection_locates:
  assumes dec: "\<And>mid. lo0 < mid \<Longrightarrow> mid < hi0 \<Longrightarrow> (target < f mid \<longleftrightarrow> mid < x)"
    and b: "lo0 \<le> low" "low < high" "high \<le> hi0"
    and x: "low \<le> x" "x \<le> high"
  shows "fst ((bisectionStep f target ^^ k) (low, high)) \<le> x \<and>
     x \<le> snd ((bisectionStep f target ^^ k) (low, high))"
proof (induction k)
  case 0
  then show ?case using x by simp
next
  case (Suc k)
  obtain l h where lh: "(bisectionStep f target ^^ k) (low, high) = (l, h)"
    by (cases "(bisectionStep f target ^^ k) (low, high)")
  from bisection_bracket [OF b, where f = f and target = target and k = k] have r: "lo0 \<le> l" "l < h" "h \<le> hi0"
    unfolding lh by simp_all
  from Suc have lx: "l \<le> x" "x \<le> h" unfolding lh by simp_all
  have "lo0 < (l + h) / 2" "(l + h) / 2 < hi0" using r by simp_all
  from dec [OF this] have d: "target < f ((l + h) / 2) \<longleftrightarrow> (l + h) / 2 < x" .
  have step: "(bisectionStep f target ^^ Suc k) (low, high) = bisectionStep f target (l, h)"
    by (simp add: lh)
  show ?case
  proof (cases "(l + h) / 2 < x")
    case True
    then have "bisectionStep f target (l, h) = ((l + h) / 2, h)"
      using d by (simp add: bisectionStep_def Let_def)
    with True lx show ?thesis unfolding step by simp
  next
    case False
    then have "bisectionStep f target (l, h) = (l, (l + h) / 2)"
      using d by (simp add: bisectionStep_def Let_def)
    with False lx show ?thesis unfolding step by simp
  qed
qed


text \<open>
  Claim C8 (amended): for LINEAR with at least two steps (\<open>2 \<le> floor numTimesteps < 2^32\<close>),
  \<open>0 \<le> betaStart < 1\<close> and \<open>betaEnd0\<close> in the search bracket \<open>[1e-7, 0.999]\<close>, if the schedule
  of \<open>betaEnd0\<close> has terminal \<open>snrDb = s\<close> above the floor \<open>-200\<close>, the solver called with
  target \<open>s\<close> returns a value within \<open>1e-6\<close> of \<open>betaEnd0\<close>.
\<close>

theorem solver_round_trip:
  assumes n2: "2 \<le> \<lfloor>n\<rfloor>" and nb: "\<lfloor>n\<rfloor> < 2 ^ 32"
    and bs: "0 \<le> bs" "bs < 1" and be0: "1 / 10 ^ 7 \<le> be0" "be0 \<le> 0.999"
    and d: "calculateSchedule
        \<lparr> betaStart = Num bs, betaEnd = Num be0, numTimesteps = Num n, schedule = LINEAR \<rparr>
        = Inr data"
    and s: "snrDb (last data) = s" and fl: "Num (- 200) < s"
  shows "\<exists>h. solveBetaEndForSNR s (Num bs) (Num n) LINEAR = Inr (Num h) \<and>
     \<bar>h - be0\<bar> < 1 / 10 ^ 6"
proof -
  define c where "c = max 1 \<lfloor>n\<rfloor>"
  have c2: "2 \<le> c" using n2 by (simp add: c_def)
  have cb: "c < 2 ^ 32" using nb unfolding c_def by (simp only: max_less_iff_conj) simp
  define P where "P = (\<lambda>be. prod_list (map (\<lambda>x. 1 - x)
      (map (\<lambda>i. bs + (be - bs) / (of_int c - 1) * real i) [0 ..< nat c])))"
  define T where "T = (\<lambda>be. 10 * log 10 (max (1 / 10 ^ 20) (P be / (1 - P be))))"
  let ?f = "terminalSnrDb (Num bs) (Num n) LINEAR"
  have P: "0 < P be" "P be < 1" if "0 < be" "be < 1" for be
    using linear_alphaBar_range [OF c2 bs that] by (simp_all add: P_def)
  have tsd: "?f be = Num (T be)" if "0 < be" "be < 1" for be
    using terminal_linear [OF c_def c2 cb bs that refl]
    by (simp add: terminalSnrDb_def T_def P_def)
  have b0: "0 < be0" "be0 < 1"
    using be0 by (simp_all add: less_le_trans [of 0 "1 / 10 ^ 7"])
  have s0: "s = Num (T be0)"
    using terminal_linear [OF c_def c2 cb bs b0 refl] d s
    by (simp add: T_def P_def)
  have fl': "- 200 < T be0" using fl unfolding s0 by simp
  have above: "1 / 10 ^ 20 < P be0 / (1 - P be0)"
    by (rule snrDb_above_floor) (use fl' in \<open>simp add: T_def\<close>)
  have dec: "s < ?f mid \<longleftrightarrow> mid < be0" if m: "1 / 10 ^ 7 < mid" "mid < 0.999" for mid
  proof -
    have m0: "0 < mid" "mid < 1"
      using m by (simp_all add: less_trans [of 0 "1 / 10 ^ 7"])
    show ?thesis
    proof (cases "mid < be0")
      case True
      have "P be0 < P mid"
        unfolding P_def by (rule linear_alphaBar_strict [OF c2 bs m0(1) True b0(2)])
      then have lt: "P be0 / (1 - P be0) < P mid / (1 - P mid)"
        by (intro snr_increasing P b0 m0)
      from above lt have "1 / 10 ^ 20 < P mid / (1 - P mid)" by (rule less_trans)
      from snrDb_strict [OF lt this] have "T be0 < T mid" by (simp add: T_def)
      with True show ?thesis by (simp add: s0 tsd [OF m0])
    next
      case False
      then have le: "be0 \<le> mid" by simp
      have "P mid \<le> P be0"
        unfolding P_def by (rule linear_alphaBar_antimono [OF c2 bs b0(1) le m0(2)])
      then have "P mid / (1 - P mid) \<le> P be0 / (1 - P be0)"
        by (intro snr_mono P b0 m0)
      from snrDb_monotone [OF this] have "T mid \<le> T be0" by (simp add: T_def)
      with False show ?thesis by (simp add: s0 tsd [OF m0])
    qed
  qed
  obtain l h where lh: "(bisectionStep ?f s ^^ 40) (1 / 10 ^ 7, 0.999) = (l, h)"
    by (cases "(bisectionStep ?f s ^^ 40) (1 / 10 ^ 7, 0.999)")
  have b: "(1 :: real) / 10 ^ 7 \<le> 1 / 10 ^ 7" "(1 :: real) / 10 ^ 7 < 0.999"
    "(0.999 :: real) \<le> 0.999"
    by simp_all
  from bisection_locates [of "1 / 10 ^ 7" "0.999" s ?f be0, OF dec b be0, of 40]
  have loc: "l \<le> be0" "be0 \<le> h" unfolding lh by simp_all
  from bisection_bracket [OF b, where f = ?f and target = s and k = 40]
  have width: "h - l = (0.999 - 1 / 10 ^ 7) / 2 ^ 40" unfolding lh by simp
  have "(0.999 - 1 / 10 ^ 7) / 2 ^ 40 < (1 :: real) / 10 ^ 6" by simp
  with width loc have close: "\<bar>h - be0\<bar> < 1 / 10 ^ 6" by simp
  have "solveBetaEndForSNR s (Num bs) (Num n) LINEAR = Inr (Num h)"
    unfolding solveBetaEndForSNR_def
    using solveLoop_bisection [OF nb, where i = 0 and k = 40 and target = s
        and bStart = "Num bs" and sched = LINEAR and low = "1 / 10 ^ 7" and high = "0.999"]
    by (simp only: lh snd_conv)
  with close show ?thesis by blast
qed


lemma bisection_constant:
  assumes "\<And>mid. \<not> target < f mid"
  shows "(bisectionStep f target ^^ k) (l, h) = (l, l + (h - l) / 2 ^ k)"
proof (induction k)
  case 0
  then show ?case by simp
next
  case (Suc k)
  have "bisectionStep f target (l, l + (h - l) / 2 ^ k) = (l, l + (h - l) / 2 ^ Suc k)"
    using assms by (simp add: bisectionStep_def Let_def field_simps)
  with Suc show ?case by simp
qed

lemma terminal_single:
  "terminalSnrDb (Num 0.0001) (Num 1) LINEAR mid = Num (10 * log 10 9999)"
  by (simp add: terminalSnrDb_def calculateSchedule_def getBetas_def linspace_def Let_def
      or_else_def Math_log10_def)

text \<open>
  Claim C8, as stated, fails: with one step the LINEAR schedule is \<open>[betaStart]\<close> whatever
  \<open>betaEnd\<close> is, so the terminal \<open>snrDb\<close> never exceeds the target, every iteration moves
  \<open>high\<close>, and the solver returns about \<open>1e-7\<close>, not the \<open>betaEnd = 0.02\<close> that produced the
  target.
\<close>

theorem solver_round_trip_counterexample:
  "map_sum id (snrDb \<circ> last)
     (calculateSchedule
        \<lparr> betaStart = Num 0.0001, betaEnd = Num 0.02, numTimesteps = Num 1, schedule = LINEAR \<rparr>)
     = Inr (Num (10 * log 10 9999)) \<and>
   solveBetaEndForSNR (Num (10 * log 10 9999)) (Num 0.0001) (Num 1) LINEAR
     = Inr (Num (1 / 10 ^ 7 + (0.999 - 1 / 10 ^ 7) / 2 ^ 40)) \<and>
   \<not> \<bar>(1 / 10 ^ 7 + (0.999 - 1 / 10 ^ 7) / 2 ^ 40) - (0.02 :: real)\<bar> < 1 / 10 ^ 6"
proof (intro conjI)
  show "map_sum id (snrDb \<circ> last)
     (calculateSchedule
        \<lparr> betaStart = Num 0.0001, betaEnd = Num 0.02, numTimesteps = Num 1, schedule = LINEAR \<rparr>)
     = Inr (Num (10 * log 10 9999))"
    by (simp add: calculateSchedule_def getBetas_def linspace_def Let_def
        or_else_def Math_log10_def)
next
  let ?f = "terminalSnrDb (Num 0.0001) (Num 1) LINEAR"
  have h: "\<lfloor>1 :: real\<rfloor> < 2 ^ 32" by simp
  have "\<not> Num (10 * log 10 9999) < ?f mid" for mid
    unfolding terminal_single by simp
  then have "(bisectionStep ?f (Num (10 * log 10 9999)) ^^ 40) (1 / 10 ^ 7, 0.999)
      = (1 / 10 ^ 7, 1 / 10 ^ 7 + (0.999 - 1 / 10 ^ 7) / 2 ^ 40)"
    by (rule bisection_constant)
  then show "solveBetaEndForSNR (Num (10 * log 10 9999)) (Num 0.0001) (Num 1) LINEAR
     = Inr (Num (1 / 10 ^ 7 + (0.999 - 1 / 10 ^ 7) / 2 ^ 40))"
    unfolding solveBetaEndForSNR_def
    using solveLoop_bisection [OF h, where i = 0 and k = 40
        and target = "Num (10 * log 10 9999)"
        and bStart = "Num 0.0001" and sched = LINEAR and low = "1 / 10 ^ 7" and high = "0.999"]
    by (simp only: snd_conv)
next
  show "\<not> \<bar>(1 / 10 ^ 7 + (0.999 - 1 / 10 ^ 7) / 2 ^ 40) - (0.02 :: real)\<bar> < 1 / 10 ^ 6"
    by simp
qed

theorem solver_round_trip_witness:
  "2 \<le> \<lfloor>2 :: real\<rfloor> \<and> \<lfloor>2 :: real\<rfloor> < 2 ^ 32 \<and> (0 :: real) \<le> 0.1 \<and> (0.1 :: real) < 1 \<and>
   (1 :: real) / 10 ^ 7 \<le> 0.3 \<and> (0.3 :: real) \<le> 0.999 \<and>
   (\<exists>data h.
      calculateSchedule
        \<lparr> betaStart = Num 0.1, betaEnd = Num 0.3, numTimesteps = Num 2, schedule = LINEAR \<rparr>
        = Inr data \<and>
      Num (- 200) < snrDb (last data) \<and>
      solveBetaEndForSNR (snrDb (last data)) (Num 0.1) (Num 2) LINEAR = Inr (Num h) \<and>
      \<bar>h - 0.3\<bar> < 1 / 10 ^ 6)"
proof -
  let ?P = "\<lparr> betaStart = Num 0.1, betaEnd = Num 0.3, numTimesteps = Num 2, schedule = LINEAR \<rparr>"
  let ?data = "scheduleLoop 0 (Num 1) [Num 0.1, Num 0.3]"
  have h: "2 \<le> \<lfloor>2 :: real\<rfloor>" "\<lfloor>2 :: real\<rfloor> < 2 ^ 32" "(0 :: real) \<le> 0.1" "(0.1 :: real) < 1"
    "(1 :: real) / 10 ^ 7 \<le> 0.3" "(0.3 :: real) \<le> 0.999"
    by simp_all
  have d: "calculateSchedule ?P = Inr ?data"
    unfolding calculateSchedule_def getBetas_linear_two by (simp only: sum.case)
  have "(0 :: real) < log 10 (63 / 37)" by simp
  then have "- 200 < 10 * log 10 (63 / 37)" by linarith
  moreover have "snrDb (last ?data) = Num (10 * log 10 (63 / 37))"
    by (simp add: Let_def or_else_def Math_log10_def)
  ultimately have fl: "Num (- 200) < snrDb (last ?data)" by simp
  from solver_round_trip [OF h d refl fl] d fl h show ?thesis by blast
qed

end
